theory Spec2Isabelle
  imports Complex_Main "HOL-Library.Log_Nat"
begin

section \<open>Python values used by the server\<close>

text \<open>
  A Python float is a finite double and is read as the real number it stands for, so
  that comparisons are the comparisons of real numbers. Python integers are unbounded
  and are \<^typ>\<open>int\<close>. Strings are byte strings. An exception is a value; a function
  that can raise returns a sum with the exception on the left.
\<close>

datatype exn = ValueError string | IndexError | ConnectionError | OverflowError

text \<open>
  The sum, the difference and the product of two floats are rounded by the machine. The
  three operations are a parameter of the code that computes with floats; \<open>exact\<close> is
  the arithmetic without rounding, which is the machine's wherever the exact result is a
  double again (as for small integers and their halves and quarters).
\<close>

record arith =
  fl_add :: "real \<Rightarrow> real \<Rightarrow> real"
  fl_sub :: "real \<Rightarrow> real \<Rightarrow> real"
  fl_mul :: "real \<Rightarrow> real \<Rightarrow> real"

definition exact :: arith where
  "exact = \<lparr>fl_add = (+), fl_sub = (-), fl_mul = (*)\<rparr>"

text \<open>
  \<open>float(b)\<close> for an integer \<open>b\<close>: the nearest double, a tie to the even one. An
  integer of at most 53 bits is a double. A longer one keeps its 53 leading bits,
  rounded by the bits that are cut. From \<open>2^1024 - 2^970\<close> on, the nearest double would
  be \<open>2^1024\<close>, which is none, and \<open>float\<close> raises \<open>OverflowError\<close>.
\<close>

definition bit_length :: "nat \<Rightarrow> nat" where
  "bit_length n = floorlog 2 n"

definition round_to_double :: "int \<Rightarrow> int" where
  "round_to_double b =
     (if \<bar>b\<bar> \<le> 2 ^ 53 then b
      else
        let a = nat \<bar>b\<bar>;
            s = bit_length a - 53;
            q = a div 2 ^ s;
            r = a mod 2 ^ s;
            h = 2 ^ (s - 1);
            q' = (if h < r \<or> (r = h \<and> odd q) then q + 1 else q)
        in sgn b * int (q' * 2 ^ s))"

definition py_float :: "int \<Rightarrow> exn + real" where
  "py_float b =
     (if 2 ^ 1024 - 2 ^ 970 \<le> \<bar>b\<bar> then Inl OverflowError
      else Inr (real_of_int (round_to_double b)))"

text \<open>\<open>s.startswith(p)\<close> and \<open>s.endswith(p)\<close>.\<close>

definition startswith :: "string \<Rightarrow> string \<Rightarrow> bool" where
  "startswith s p = (take (length p) s = p)"

definition endswith :: "string \<Rightarrow> string \<Rightarrow> bool" where
  "endswith s p = (length p \<le> length s \<and> drop (length s - length p) s = p)"

text \<open>\<open>c.isspace()\<close> on a one-byte character and \<open>s.strip()\<close>.\<close>

definition py_isspace :: "char \<Rightarrow> bool" where
  "py_isspace c = (of_char c \<in> {9, 10, 11, 12, 13, 28, 29, 30, 31, 32, 133, 160 :: nat})"

definition strip :: "string \<Rightarrow> string" where
  "strip s = rev (dropWhile py_isspace (rev (dropWhile py_isspace s)))"

text \<open>The slice \<open>xs[k:]\<close>: a negative \<open>k\<close> counts from the end, and the start is clipped
  to the list.\<close>

definition py_slice_from :: "int \<Rightarrow> 'a list \<Rightarrow> 'a list" where
  "py_slice_from k xs =
     (let n = int (length xs);
          start = (if k < 0 then max (n + k) 0 else min k n)
      in drop (nat start) xs)"

text \<open>\<open>round(x, 2)\<close>: to the nearest hundredth, a tie to the even one.\<close>

definition py_round2 :: "real \<Rightarrow> real" where
  "py_round2 x =
     (let y = x * 100; f = \<lfloor>y\<rfloor>; d = y - real_of_int f
      in real_of_int (if d < 1 / 2 then f
                      else if d > 1 / 2 then f + 1
                      else if even f then f else f + 1) / 100)"

text \<open>\<open>collections.deque(maxlen=m).append(x)\<close>: the new item goes to the right end and,
  when the deque is then longer than \<open>m\<close>, the leftmost item is dropped.\<close>

definition deque_append :: "nat \<Rightarrow> 'a list \<Rightarrow> 'a \<Rightarrow> 'a list" where
  "deque_append maxlen d x =
     (let d' = d @ [x] in if length d' > maxlen then tl d' else d')"

section \<open>Token bucket: \<open>app/rate_limiter.py\<close>\<close>

record Bucket =
  tokens :: real
  last_refill :: real

record RateLimiter =
  rps :: real
  burst :: real
  buckets :: "string \<rightharpoonup> Bucket"

text \<open>\<open>RateLimiter.__init__(rps, burst)\<close>: two checks, then the fields; \<open>rps\<close> is a
  float already, and \<open>burst\<close> is an integer that \<open>float(burst)\<close> converts, which can
  raise.\<close>

definition RateLimiter_init :: "real \<Rightarrow> int \<Rightarrow> exn + RateLimiter" where
  "RateLimiter_init r b =
     (if r \<le> 0 then Inl (ValueError ''rps must be positive'')
      else if b \<le> 0 then Inl (ValueError ''burst must be positive'')
      else (case py_float b of
              Inl e \<Rightarrow> Inl e
            | Inr v \<Rightarrow> Inr \<lparr>rps = r, burst = v, buckets = Map.empty\<rparr>))"

text \<open>
  \<open>RateLimiter.allow(ip)\<close>. The clock \<open>now\<close> is read by the caller's thread before the
  lock is taken, so it is an argument; the body under the lock is one atomic step.
  The bucket object is shared with the dictionary, so every assignment to one of its
  fields shows in \<open>buckets\<close>. The difference, the product and the sum of the refill and
  the subtraction of \<open>1.0\<close> are the machine's, the first argument.
\<close>

definition allow_fl :: "arith \<Rightarrow> real \<Rightarrow> string \<Rightarrow> RateLimiter \<Rightarrow> bool \<times> RateLimiter" where
  "allow_fl A now ip self =
     (let bucket = (case buckets self ip of
                      None \<Rightarrow> \<lparr>tokens = burst self, last_refill = now\<rparr>
                    | Some b \<Rightarrow> b);
          elapsed = fl_sub A now (last_refill bucket);
          bucket = (if elapsed > 0
                    then bucket\<lparr>tokens := min (burst self)
                                            (fl_add A (tokens bucket) (fl_mul A elapsed (rps self))),
                                last_refill := now\<rparr>
                    else bucket)
      in if tokens bucket \<ge> 1
         then (True, self\<lparr>buckets := (buckets self)(ip \<mapsto> bucket\<lparr>tokens := fl_sub A (tokens bucket) 1\<rparr>)\<rparr>)
         else (False, self\<lparr>buckets := (buckets self)(ip \<mapsto> bucket)\<rparr>))"

text \<open>The same call in the arithmetic without rounding.\<close>

definition allow :: "real \<Rightarrow> string \<Rightarrow> RateLimiter \<Rightarrow> bool \<times> RateLimiter" where
  "allow now ip self = allow_fl exact now ip self"

text \<open>A run of calls, each with the clock value its thread read and the key it asks for,
  in the order in which the calls get the lock.\<close>

definition allow_all :: "RateLimiter \<Rightarrow> (real \<times> string) list \<Rightarrow> RateLimiter" where
  "allow_all self calls = foldl (\<lambda>s (now, ip). snd (allow now ip s)) self calls"

text \<open>The token count a call starts from (the capacity for a key seen for the first time),
  the time of the last refill it measures from (the call's own clock value for such a
  key), the time it finds elapsed, and the count after its refill step.\<close>

definition tokens_before :: "RateLimiter \<Rightarrow> string \<Rightarrow> real" where
  "tokens_before self ip = (case buckets self ip of None \<Rightarrow> burst self | Some b \<Rightarrow> tokens b)"

definition refill_from :: "RateLimiter \<Rightarrow> real \<Rightarrow> string \<Rightarrow> real" where
  "refill_from self now ip = (case buckets self ip of None \<Rightarrow> now | Some b \<Rightarrow> last_refill b)"

definition elapsed_fl :: "arith \<Rightarrow> RateLimiter \<Rightarrow> real \<Rightarrow> string \<Rightarrow> real" where
  "elapsed_fl A self now ip = fl_sub A now (refill_from self now ip)"

definition refilled_fl :: "arith \<Rightarrow> RateLimiter \<Rightarrow> real \<Rightarrow> string \<Rightarrow> real" where
  "refilled_fl A self now ip =
     (if 0 < elapsed_fl A self now ip
      then min (burst self)
             (fl_add A (tokens_before self ip) (fl_mul A (elapsed_fl A self now ip) (rps self)))
      else tokens_before self ip)"

text \<open>The refill as the specification words it: \<open>min(burst, tokens + elapsed * rate)\<close> on
  every call.\<close>

definition spec_refilled :: "RateLimiter \<Rightarrow> real \<Rightarrow> string \<Rightarrow> real" where
  "spec_refilled self now ip =
     min (burst self) (tokens_before self ip + (now - refill_from self now ip) * rps self)"

definition tokens_of :: "RateLimiter \<Rightarrow> string \<Rightarrow> real option" where
  "tokens_of self ip = map_option tokens (buckets self ip)"

section \<open>Counters: \<open>app/counter.py\<close>\<close>

type_synonym counts = "string \<rightharpoonup> int"

text \<open>\<open>counts.get(key, 0)\<close>.\<close>

definition get_count :: "counts \<Rightarrow> string \<Rightarrow> int" where
  "get_count c key = (case c key of None \<Rightarrow> 0 | Some v \<Rightarrow> v)"

datatype counter = NaiveCounter counts | LockedCounter counts

text \<open>One call of \<open>inc\<close> that runs alone, \<open>snapshot\<close> and \<open>reset\<close>.\<close>

fun inc :: "string \<Rightarrow> counter \<Rightarrow> counter" where
  "inc key (NaiveCounter c) = NaiveCounter (c(key \<mapsto> get_count c key + 1))"
| "inc key (LockedCounter c) = LockedCounter (c(key \<mapsto> get_count c key + 1))"

fun snapshot :: "counter \<Rightarrow> counts" where
  "snapshot (NaiveCounter c) = c"
| "snapshot (LockedCounter c) = c"

fun reset :: "counter \<Rightarrow> counter" where
  "reset (NaiveCounter c) = NaiveCounter Map.empty"
| "reset (LockedCounter c) = LockedCounter Map.empty"

subsection \<open>Workers that call \<open>NaiveCounter.inc\<close> at the same time\<close>

text \<open>
  A worker calls \<open>inc(key)\<close> a number of times, as the workers of the tests do. One call
  is two steps with \<open>time.sleep\<close> between them: it reads \<open>current\<close>, and later it
  writes \<open>current + 1\<close>; a read and a write of the dictionary are each one step, as
  they are under the interpreter's lock. A worker is the number of calls it has not
  finished and where it stands in the call; a schedule names the worker that takes the
  next step, and every list of worker numbers is a schedule.
\<close>

datatype naive_pc = N_Idle | N_Sleeping int

type_synonym naive_world = "counts \<times> (nat \<times> naive_pc) list"

definition naive_step :: "string \<Rightarrow> naive_world \<Rightarrow> nat \<Rightarrow> naive_world" where
  "naive_step key w i =
     (case w of (c, ts) \<Rightarrow>
        if i < length ts then
          (case ts ! i of
             (n, N_Idle) \<Rightarrow>
               if n = 0 then (c, ts)
               else (c, ts[i := (n, N_Sleeping (get_count c key))])
           | (n, N_Sleeping current) \<Rightarrow>
               (c(key \<mapsto> current + 1), ts[i := (n - 1, N_Idle)]))
        else (c, ts))"

definition naive_run :: "string \<Rightarrow> nat list \<Rightarrow> nat list \<Rightarrow> naive_world" where
  "naive_run key ks sched =
     foldl (naive_step key) (Map.empty, map (\<lambda>k. (k, N_Idle)) ks) sched"

definition naive_finished :: "naive_world \<Rightarrow> bool" where
  "naive_finished w = list_all (\<lambda>t. t = (0, N_Idle)) (snd w)"

text \<open>The schedule in which each of \<open>n\<close> workers reads before any of them writes.\<close>

definition all_read_then_write :: "nat \<Rightarrow> nat list" where
  "all_read_then_write n = [0..<n] @ [0..<n]"

subsection \<open>Workers that call \<open>LockedCounter.inc\<close> at the same time\<close>

text \<open>
  One call takes the lock, reads the count, writes the count plus one and gives the lock
  back on leaving the \<open>with\<close> block; these are four steps, and a worker that asks for a
  lock that is held stays where it is.
\<close>

datatype locked_pc = L_Idle | L_Holding | L_Read int | L_Written

type_synonym locked_world = "counts \<times> bool \<times> (nat \<times> locked_pc) list"

definition locked_step :: "string \<Rightarrow> locked_world \<Rightarrow> nat \<Rightarrow> locked_world" where
  "locked_step key w i =
     (case w of (c, held, ts) \<Rightarrow>
        if i < length ts then
          (case ts ! i of
             (n, L_Idle) \<Rightarrow>
               if n = 0 \<or> held then (c, held, ts)
               else (c, True, ts[i := (n, L_Holding)])
           | (n, L_Holding) \<Rightarrow> (c, held, ts[i := (n, L_Read (get_count c key))])
           | (n, L_Read current) \<Rightarrow> (c(key \<mapsto> current + 1), held, ts[i := (n, L_Written)])
           | (n, L_Written) \<Rightarrow> (c, False, ts[i := (n - 1, L_Idle)]))
        else (c, held, ts))"

definition locked_run :: "string \<Rightarrow> nat list \<Rightarrow> nat list \<Rightarrow> locked_world" where
  "locked_run key ks sched =
     foldl (locked_step key) (Map.empty, False, map (\<lambda>k. (k, L_Idle)) ks) sched"

definition locked_finished :: "locked_world \<Rightarrow> bool" where
  "locked_finished w = list_all (\<lambda>t. t = (0, L_Idle)) (snd (snd w))"

text \<open>The schedule in which the workers run one after the other, each to its end: a call
  is four steps.\<close>

definition one_by_one :: "nat list \<Rightarrow> nat list" where
  "one_by_one ks = concat (map (\<lambda>i. replicate (4 * (ks ! i)) i) [0..<length ks])"

section \<open>The request handler: \<open>app/server.py\<close>\<close>

subsection \<open>Shared state\<close>

record log_entry =
  e_id :: int
  e_ts :: real
  e_ip :: string
  e_method :: string
  e_path :: string
  e_status :: int
  e_dur_ms :: real
  e_inflight :: int
  e_thread :: string

text \<open>
  The attributes that all handlers of one handler class share: the counter and the
  limiter (either can be left unset), the configured delay and the trust in
  \<open>X-Forwarded-For\<close>, the inflight count, the log buffer (oldest entry first) and the
  last log id given out. There is one handler class in a process, the one that
  \<open>make_server\<close> builds for \<open>main\<close>. Each of the operations below runs under its
  lock and is one atomic step.
\<close>

record server =
  counter :: "counter option"
  limiter :: "RateLimiter option"
  delay :: real
  trust_xff :: bool
  inflight :: int
  logs :: "log_entry list"
  log_seq :: int

definition inflight_inc :: "server \<Rightarrow> server" where
  "inflight_inc st = st\<lparr>inflight := inflight st + 1\<rparr>"

definition inflight_dec :: "server \<Rightarrow> server" where
  "inflight_dec st = (if inflight st > 0 then st\<lparr>inflight := inflight st - 1\<rparr> else st)"

definition inflight_peek :: "server \<Rightarrow> int" where
  "inflight_peek st = inflight st"

datatype inflight_op = Inc | Dec

fun inflight_apply :: "server \<Rightarrow> inflight_op \<Rightarrow> server" where
  "inflight_apply st Inc = inflight_inc st"
| "inflight_apply st Dec = inflight_dec st"

text \<open>
  \<open>_log(ip, method, path, status, dur_ms, inflight)\<close>: the next id, then the entry at the
  right end of \<open>deque(maxlen=1000)\<close>. The wall clock and the thread's name are read
  inside and are the first two arguments here.
\<close>

definition log' ::
  "real \<Rightarrow> string \<Rightarrow> string \<Rightarrow> string \<Rightarrow> string \<Rightarrow> int \<Rightarrow> real \<Rightarrow> int \<Rightarrow> server \<Rightarrow> server" where
  "log' wall thread ip method path status dur_ms infl st =
     (let seq = log_seq st + 1;
          entry = \<lparr>e_id = seq, e_ts = wall, e_ip = ip, e_method = method, e_path = path,
                   e_status = status, e_dur_ms = py_round2 dur_ms, e_inflight = infl,
                   e_thread = thread\<rparr>
      in st\<lparr>log_seq := seq, logs := deque_append 1000 (logs st) entry\<rparr>)"

text \<open>The arguments of one call of \<open>_log\<close>, for a run of calls.\<close>

record log_call =
  c_wall :: real
  c_thread :: string
  c_ip :: string
  c_method :: string
  c_path :: string
  c_status :: int
  c_dur_ms :: real
  c_inflight :: int

definition log_call :: "server \<Rightarrow> log_call \<Rightarrow> server" where
  "log_call st c =
     log' (c_wall c) (c_thread c) (c_ip c) (c_method c) (c_path c) (c_status c) (c_dur_ms c)
       (c_inflight c) st"

text \<open>The entry that the \<open>k\<close>-th call of \<open>_log\<close> on a fresh handler class builds.\<close>

definition entry_of :: "int \<Rightarrow> log_call \<Rightarrow> log_entry" where
  "entry_of k c =
     \<lparr>e_id = k, e_ts = c_wall c, e_ip = c_ip c, e_method = c_method c, e_path = c_path c,
      e_status = c_status c, e_dur_ms = py_round2 (c_dur_ms c), e_inflight = c_inflight c,
      e_thread = c_thread c\<rparr>"

definition all_entries :: "log_call list \<Rightarrow> log_entry list" where
  "all_entries cs = map (\<lambda>(k, c). entry_of (int k + 1) c) (enumerate 0 cs)"

subsection \<open>What the handler takes from the library and from its surroundings\<close>

text \<open>
  Three functions of the standard library are parameters: the path component that
  \<open>urlsplit\<close> returns (\<open>None\<close> when it raises \<open>ValueError\<close>), the name and value pairs
  that \<open>parse_qsl\<close> finds in the query of a path (on a path that starts with \<open>/api/\<close>
  neither \<open>urlparse\<close> nor \<open>parse_qsl\<close> raises, and \<open>parse_qsl\<close> leaves out a
  parameter with an empty value), and \<open>int\<close> on a string (\<open>None\<close> when it raises
  \<open>ValueError\<close>).
\<close>

record lib =
  url_path :: "string \<Rightarrow> string option"
  query_pairs :: "string \<Rightarrow> (string \<times> string) list"
  py_int :: "string \<Rightarrow> int option"

text \<open>How the base class's \<open>do_GET\<close> ends: it returns or raises, and in both cases the
  last status passed to \<open>send_response\<close>, if any, is known.\<close>

datatype served = Served "int option" | Failed exn "int option"

text \<open>
  What one request reads from its surroundings: the monotonic clock (in \<open>allow\<close>, at
  the start, in the \<open>except\<close> block, in the \<open>finally\<close> block), the wall clock in each
  call of \<open>_log\<close>, the thread's name, whether \<open>os.listdir\<close> of the document root
  succeeds, what the base class's \<open>do_GET\<close> does with the file, and the exception, if
  any, that the socket raises when \<open>send_error\<close> writes the answer of a rejection.
  The writes of the administrative answers and of the directory listing are taken to
  succeed.
\<close>

record env =
  t_allow :: real
  t_start :: real
  t_except :: real
  t_finally :: real
  ts_reject :: real
  ts_except :: real
  ts_finally :: real
  thread_name :: string
  listdir_ok :: bool
  static_get :: served
  reject_write :: "exn option"

record request =
  req_path :: string
  client_address :: string
  x_forwarded_for :: "string option"

datatype body =
  JsonPing | JsonInfo | JsonReset | JsonCounts | JsonInflight int | JsonLogs "log_entry list"
  | JsonFire | ErrorPage | IndexPage | FileBody

text \<open>How \<open>do_GET\<close> ends: it returns, with the last status sent and the body written,
  or an exception leaves it, with the last status sent before.\<close>

datatype outcome = Returned "int option" body | Raised exn "int option"

subsection \<open>The client key\<close>

definition client_key :: "server \<Rightarrow> request \<Rightarrow> string" where
  "client_key st req =
     (case x_forwarded_for req of
        Some hdr_xff \<Rightarrow>
          if trust_xff st \<and> hdr_xff \<noteq> []
          then strip (takeWhile (\<lambda>c. c \<noteq> CHR '','') hdr_xff)
          else client_address req
      | None \<Rightarrow> client_address req)"

subsection \<open>\<open>/api/logs\<close>\<close>

text \<open>\<open>parse_qs\<close> of the standard library groups the pairs of \<open>parse_qsl\<close> by name,
  each name with the list of its values in order.\<close>

definition parse_qs :: "(string \<times> string) list \<Rightarrow> (string \<rightharpoonup> string list)" where
  "parse_qs pairs =
     foldl (\<lambda>d (name, v). case d name of
                              Some vs \<Rightarrow> d(name \<mapsto> vs @ [v])
                            | None \<Rightarrow> d(name \<mapsto> [v]))
           Map.empty pairs"

text \<open>\<open>q.get(name, [default])[0]\<close>: indexing an empty list raises \<open>IndexError\<close>.\<close>

definition get_first :: "(string \<rightharpoonup> string list) \<Rightarrow> string \<Rightarrow> string \<Rightarrow> exn + string" where
  "get_first q name dflt =
     (case q name of
        None \<Rightarrow> Inr dflt
      | Some [] \<Rightarrow> Inl IndexError
      | Some (v # _) \<Rightarrow> Inr v)"

text \<open>The two \<open>try\<close> blocks and the clamp: \<open>except ValueError\<close> catches what \<open>int\<close>
  raises, and nothing else.\<close>

definition logs_args :: "lib \<Rightarrow> (string \<rightharpoonup> string list) \<Rightarrow> exn + (int \<times> int)" where
  "logs_args l q =
     (case get_first q ''since'' ''0'' of
        Inl e \<Rightarrow> Inl e
      | Inr s \<Rightarrow>
          let since = (case py_int l s of None \<Rightarrow> 0 | Some n \<Rightarrow> n) in
          (case get_first q ''last'' ''100'' of
             Inl e \<Rightarrow> Inl e
           | Inr t \<Rightarrow>
               let last' = (case py_int l t of None \<Rightarrow> 100 | Some n \<Rightarrow> n);
                   last' = max 1 (min 500 last')
               in Inr (since, last')))"

definition log_query :: "int \<Rightarrow> int \<Rightarrow> log_entry list \<Rightarrow> log_entry list" where
  "log_query since last' items =
     (if since > 0 then filter (\<lambda>e. e_id e > since) items
      else py_slice_from (- last') items)"

definition api_logs :: "lib \<Rightarrow> string \<Rightarrow> server \<Rightarrow> outcome" where
  "api_logs l path st =
     (case logs_args l (parse_qs (query_pairs l path)) of
        Inl e \<Rightarrow> Raised e None
      | Inr (since, last') \<Rightarrow> Returned (Some 200) (JsonLogs (log_query since last' (logs st))))"

subsection \<open>\<open>_handle_api\<close>\<close>

text \<open>
  \<open>/api/fire\<close> reads \<open>path\<close> and \<open>n\<close> as \<open>/api/logs\<close> reads its parameters, and
  \<open>ThreadPoolExecutor(max_workers=min(64, n))\<close> raises \<open>ValueError\<close> unless the number
  of workers is positive.
\<close>

definition api_fire :: "lib \<Rightarrow> string \<Rightarrow> outcome" where
  "api_fire l path =
     (let q = parse_qs (query_pairs l path) in
      case get_first q ''path'' ''/'' of
        Inl e \<Rightarrow> Raised e None
      | Inr target \<Rightarrow>
          (case get_first q ''n'' ''10'' of
             Inl e \<Rightarrow> Raised e None
           | Inr t \<Rightarrow>
               let n = (case py_int l t of None \<Rightarrow> 10 | Some n \<Rightarrow> n) in
               if min 64 n \<le> 0
               then Raised (ValueError ''max_workers must be greater than 0'') None
               else Returned (Some 200) JsonFire))"

text \<open>
  The prefixes are tried in the order of the source. Only \<open>/api/reset\<close> changes the
  shared state. The requests that \<open>/api/fire\<close> sends are handled by other workers, each
  as a \<open>do_GET\<close> of its own; bodies other than the log items are named, not built.
\<close>

definition handle_api :: "lib \<Rightarrow> request \<Rightarrow> server \<Rightarrow> outcome \<times> server" where
  "handle_api l req st =
     (let path = req_path req in
      if startswith path ''/api/ping'' then (Returned (Some 200) JsonPing, st)
      else if startswith path ''/api/info'' then (Returned (Some 200) JsonInfo, st)
      else if startswith path ''/api/reset'' then
        (Returned (Some 200) JsonReset, st\<lparr>counter := map_option reset (counter st)\<rparr>)
      else if startswith path ''/api/counter'' then (Returned (Some 200) JsonCounts, st)
      else if startswith path ''/api/inflight'' then
        (Returned (Some 200) (JsonInflight (inflight st)), st)
      else if startswith path ''/api/logs'' then (api_logs l path st, st)
      else if startswith path ''/api/fire'' then (api_fire l path, st)
      else (Returned (Some 404) ErrorPage, st))"

subsection \<open>\<open>do_GET\<close>\<close>

text \<open>\<open>_serve_custom_index\<close>: \<open>send_error(404)\<close> when the directory cannot be listed,
  the listing with status 200 otherwise.\<close>

definition serve_custom_index :: "env \<Rightarrow> outcome" where
  "serve_custom_index ev =
     (if listdir_ok ev then Returned (Some 200) IndexPage else Returned (Some 404) ErrorPage)"

text \<open>
  The body of the \<open>try\<close> block. \<open>time.sleep\<close> first converts the length to a 64-bit
  number of nanoseconds and raises \<open>OverflowError\<close> when the product of the length and
  \<open>10^9\<close>, a double, is beyond \<open>2^63\<close> (the doubles next to \<open>2^63\<close> are 2048 above
  and 1024 below it, so that is a product beyond \<open>2^63 + 1024\<close> before rounding);
  then it raises \<open>ValueError\<close> on a negative length. \<open>urlsplit\<close> can raise
  \<open>ValueError\<close>; the base class's \<open>do_GET\<close> ends as the surroundings say.
\<close>

definition try_block :: "lib \<Rightarrow> env \<Rightarrow> request \<Rightarrow> server \<Rightarrow> outcome \<times> server" where
  "try_block l ev req st =
     (if 2 ^ 63 + 1024 < \<bar>delay st * 10 ^ 9\<bar> then (Raised OverflowError None, st)
      else if delay st < 0
      then (Raised (ValueError ''sleep length must be non-negative'') None, st)
      else
        (case url_path l (req_path req) of
           None \<Rightarrow> (Raised (ValueError ''urlsplit'') None, st)
         | Some key \<Rightarrow>
             let st = st\<lparr>counter := map_option (inc key) (counter st)\<rparr> in
             if endswith (req_path req) ''/'' \<or> req_path req = ''/''
             then (serve_custom_index ev, st)
             else (case static_get ev of
                     Served s \<Rightarrow> (Returned s FileBody, st)
                   | Failed e s \<Rightarrow> (Raised e s, st))))"

text \<open>The status that \<open>_last_status\<close> holds when the \<open>try\<close> block is left.\<close>

fun last_status :: "outcome \<Rightarrow> int option" where
  "last_status (Returned s b) = s"
| "last_status (Raised e s) = s"

fun raised :: "outcome \<Rightarrow> bool" where
  "raised (Returned s b) = False"
| "raised (Raised e s) = True"

text \<open>The \<open>except Exception\<close> block: it logs, then raises again.\<close>

definition except_block :: "env \<Rightarrow> string \<Rightarrow> request \<Rightarrow> outcome \<Rightarrow> server \<Rightarrow> server" where
  "except_block ev ip req r st =
     (if raised r then
        let dur_ms = (t_except ev - t_start ev) * 1000;
            infl = inflight_peek st;
            status = (case last_status r of Some s \<Rightarrow> s | None \<Rightarrow> 499)
        in log' (ts_except ev) (thread_name ev) ip ''GET'' (req_path req) status dur_ms infl st
      else st)"

text \<open>The \<open>finally\<close> block: it runs however the \<open>try\<close> block was left.\<close>

definition finally_block :: "env \<Rightarrow> string \<Rightarrow> request \<Rightarrow> outcome \<Rightarrow> server \<Rightarrow> server" where
  "finally_block ev ip req r st =
     (let dur_ms = (t_finally ev - t_start ev) * 1000;
          infl = inflight_peek st;
          status = (case last_status r of Some s \<Rightarrow> s | None \<Rightarrow> 200);
          st = log' (ts_finally ev) (thread_name ev) ip ''GET'' (req_path req) status dur_ms infl st
      in inflight_dec st)"

text \<open>The admitted request, from \<open>start = time.monotonic()\<close> on.\<close>

definition process :: "lib \<Rightarrow> env \<Rightarrow> string \<Rightarrow> request \<Rightarrow> server \<Rightarrow> outcome \<times> server" where
  "process l ev ip req st =
     (let st = inflight_inc st;
          (r, st) = try_block l ev req st;
          st = except_block ev ip req r st;
          st = finally_block ev ip req r st
      in (r, st))"

text \<open>
  The rejection: \<open>send_error(429)\<close>, one log entry with \<open>dur_ms=0.0\<close>, return.
  \<open>send_error\<close> passes the status to \<open>send_response\<close> and then writes to the socket; it
  is called outside any \<open>try\<close>, so an exception of the write leaves \<open>do_GET\<close> before
  \<open>_log\<close> is reached.
\<close>

definition reject :: "env \<Rightarrow> string \<Rightarrow> request \<Rightarrow> server \<Rightarrow> outcome \<times> server" where
  "reject ev ip req st =
     (case reject_write ev of
        Some e \<Rightarrow> (Raised e (Some 429), st)
      | None \<Rightarrow>
          (Returned (Some 429) ErrorPage,
           log' (ts_reject ev) (thread_name ev) ip ''GET'' (req_path req) 429 0
             (inflight_peek st) st))"

definition do_GET :: "lib \<Rightarrow> env \<Rightarrow> request \<Rightarrow> server \<Rightarrow> outcome \<times> server" where
  "do_GET l ev req st =
     (let ip = client_key st req in
      if req_path req = ''/__counts'' then (Returned (Some 200) JsonCounts, st)
      else if startswith (req_path req) ''/api/'' then handle_api l req st
      else
        (case limiter st of
           None \<Rightarrow> process l ev ip req st
         | Some rl \<Rightarrow>
             (case allow (t_allow ev) ip rl of
                (ok, rl') \<Rightarrow>
                  let st = st\<lparr>limiter := Some rl'\<rparr> in
                  if \<not> ok then reject ev ip req st else process l ev ip req st)))"

text \<open>A request is administrative when it is answered before the limiter is asked.\<close>

definition administrative :: "request \<Rightarrow> bool" where
  "administrative req = (req_path req = ''/__counts'' \<or> startswith (req_path req) ''/api/'')"

section \<open>Definitions used in the proofs\<close>

text \<open>Every bucket of a limiter holds between zero tokens and the capacity.\<close>

definition bounded :: "RateLimiter \<Rightarrow> bool" where
  "bounded self = (\<forall>k b. buckets self k = Some b \<longrightarrow> 0 \<le> tokens b \<and> tokens b \<le> burst self)"

text \<open>The calls of \<open>inc\<close> that the workers have not finished.\<close>

definition todo_sum :: "(nat \<times> 'a) list \<Rightarrow> nat" where
  "todo_sum ts = sum_list (map fst ts)"

text \<open>
  The invariant of the unsynchronized workers: the count, and every value that a
  sleeping worker is about to write back, stay below the number of finished calls.
\<close>

definition naive_inv :: "string \<Rightarrow> nat \<Rightarrow> naive_world \<Rightarrow> bool" where
  "naive_inv key N w =
     (get_count (fst w) key + int (todo_sum (snd w)) \<le> int N
      \<and> (\<forall>i n cur. i < length (snd w) \<longrightarrow> snd w ! i = (n, N_Sleeping cur) \<longrightarrow>
            1 \<le> n \<and> cur + int (todo_sum (snd w)) \<le> int N))"

text \<open>The calls whose write is still to come, for a worker of the locked counter.\<close>

fun pending :: "nat \<times> locked_pc \<Rightarrow> nat" where
  "pending (n, L_Written) = n - 1"
| "pending (n, pc) = n"

text \<open>
  The invariant of the synchronized workers: the count and the writes still to come add
  up to the total; a worker inside the \<open>with\<close> block holds the lock and is the only
  one there; the value it read is the count.
\<close>

definition locked_inv :: "string \<Rightarrow> nat \<Rightarrow> locked_world \<Rightarrow> bool" where
  "locked_inv key N w =
     (case w of (c, held, ts) \<Rightarrow>
        get_count c key + int (sum_list (map pending ts)) = int N
        \<and> (\<forall>i. i < length ts \<longrightarrow> snd (ts ! i) \<noteq> L_Idle \<longrightarrow>
              held \<and> 1 \<le> fst (ts ! i) \<and> (\<forall>j. j < length ts \<longrightarrow> j \<noteq> i \<longrightarrow> snd (ts ! j) = L_Idle))
        \<and> (\<forall>i n cur. i < length ts \<longrightarrow> ts ! i = (n, L_Read cur) \<longrightarrow> cur = get_count c key))"

text \<open>The values that \<open>parse_qsl\<close> found for a name, in order.\<close>

definition values_of :: "string \<Rightarrow> (string \<times> string) list \<Rightarrow> string list" where
  "values_of name pairs = map snd (filter (\<lambda>p. fst p = name) pairs)"


text \<open>The integer that a request gives for a query parameter: \<open>int\<close> of the first value
  of the name, when the name is in the query and \<open>int\<close> takes that value.\<close>

definition requested :: "lib \<Rightarrow> string \<Rightarrow> string \<Rightarrow> int option" where
  "requested l path name =
     (case map_of (query_pairs l path) name of None \<Rightarrow> None | Some v \<Rightarrow> py_int l v)"

text \<open>A request asks for the entries after an id when it gives a positive \<open>since\<close>.\<close>

definition asks_since :: "lib \<Rightarrow> string \<Rightarrow> bool" where
  "asks_since l path = (case requested l path ''since'' of None \<Rightarrow> False | Some n \<Rightarrow> 0 < n)"

section \<open>Concrete inputs\<close>

text \<open>A reading of plain decimal numbers, for the place of \<open>int\<close> at concrete inputs.\<close>

fun digits_value :: "string \<Rightarrow> nat \<Rightarrow> nat option" where
  "digits_value [] acc = Some acc"
| "digits_value (c # cs) acc =
     (if 48 \<le> (of_char c :: nat) \<and> (of_char c :: nat) \<le> 57
      then digits_value cs (10 * acc + (of_char c - 48))
      else None)"

definition decimal_int :: "string \<Rightarrow> int option" where
  "decimal_int s =
     (case s of
        [] \<Rightarrow> None
      | c # cs \<Rightarrow>
          if c = CHR ''-'' then (if cs = [] then None else map_option (\<lambda>n. - int n) (digits_value cs 0))
          else map_option int (digits_value s 0))"

definition test_lib :: lib where
  "test_lib = \<lparr>url_path = (\<lambda>p. Some (takeWhile (\<lambda>c. c \<noteq> CHR ''?'') p)),
     query_pairs = (\<lambda>p. if p = ''/api/logs?since=1'' then [(''since'', ''1'')]
                         else if p = ''/api/logs?since=abc&last=x'' then [(''since'', ''abc''), (''last'', ''x'')]
                         else []),
     py_int = decimal_int\<rparr>"

text \<open>The same library, knowing the queries of two more paths.\<close>

definition paging_lib :: lib where
  "paging_lib = test_lib\<lparr>query_pairs :=
     (\<lambda>p. if p = ''/api/logs?last=2'' then [(''last'', ''2'')]
          else if p = ''/api/logs?since=0&last=9999'' then [(''since'', ''0''), (''last'', ''9999'')]
          else query_pairs test_lib p)\<rparr>"

definition demo_env :: env where
  "demo_env = \<lparr>t_allow = 10, t_start = 10, t_except = 10, t_finally = 10,
     ts_reject = 1700000000, ts_except = 1700000000, ts_finally = 1700000000,
     thread_name = ''Thread-1'', listdir_ok = True, static_get = Served (Some 200),
     reject_write = None\<rparr>"

definition demo_request :: request where
  "demo_request = \<lparr>req_path = ''/index.html'', client_address = ''10.0.0.1'',
     x_forwarded_for = None\<rparr>"


definition idle_server :: server where
  "idle_server = \<lparr>counter = None, limiter = None, delay = 1, trust_xff = False, inflight = 0,
     logs = [], log_seq = 0\<rparr>"

definition busy_server :: server where
  "busy_server = \<lparr>counter = Some (LockedCounter [''/index.html'' \<mapsto> 3]),
     limiter = Some \<lparr>rps = 5, burst = 10,
                     buckets = [''10.0.0.1'' \<mapsto> \<lparr>tokens = 0, last_refill = 10\<rparr>]\<rparr>,
     delay = 1, trust_xff = False, inflight = 2, logs = [], log_seq = 41\<rparr>"

definition negative_delay_server :: server where
  "negative_delay_server = \<lparr>counter = Some (LockedCounter Map.empty),
     limiter = Some \<lparr>rps = 5, burst = 10, buckets = Map.empty\<rparr>,
     delay = - 1, trust_xff = False, inflight = 0, logs = [], log_seq = 0\<rparr>"

definition fresh_server :: server where
  "fresh_server = \<lparr>counter = Some (LockedCounter Map.empty),
     limiter = Some \<lparr>rps = 5, burst = 10, buckets = Map.empty\<rparr>,
     delay = 0, trust_xff = False, inflight = 0, logs = [], log_seq = 0\<rparr>"

definition disconnect_env :: env where
  "disconnect_env = \<lparr>t_allow = 10, t_start = 10, t_except = 11, t_finally = 11,
     ts_reject = 1700000000, ts_except = 1700000001, ts_finally = 1700000001,
     thread_name = ''Thread-1'', listdir_ok = True,
     static_get = Failed ConnectionError (Some 200), reject_write = None\<rparr>"

text \<open>The surroundings of a request whose client has closed the connection.\<close>

definition gone_env :: env where
  "gone_env = \<lparr>t_allow = 10, t_start = 10, t_except = 10, t_finally = 10,
     ts_reject = 1700000000, ts_except = 1700000000, ts_finally = 1700000000,
     thread_name = ''Thread-1'', listdir_ok = True, static_get = Failed ConnectionError None,
     reject_write = Some ConnectionError\<rparr>"

definition test_limiter :: RateLimiter where
  "test_limiter = \<lparr>rps = 5, burst = 5, buckets = Map.empty\<rparr>"

definition test_calls :: "(real \<times> string) list" where
  "test_calls = [(0, ''1.2.3.4''), (0, ''1.2.3.4''), (0, ''1.2.3.4''), (0, ''1.2.3.4''),
     (0, ''1.2.3.4''), (0, ''1.2.3.4''), (21 / 20, ''1.2.3.4'')]"

definition drained_limiter :: RateLimiter where
  "drained_limiter = \<lparr>rps = 4, burst = 5,
     buckets = [''1.2.3.4'' \<mapsto> \<lparr>tokens = 0, last_refill = 0\<rparr>]\<rparr>"

definition small_limiter :: RateLimiter where
  "small_limiter = \<lparr>rps = 5, burst = 2, buckets = Map.empty\<rparr>"

definition three_calls :: "log_call list" where
  "three_calls =
     [\<lparr>c_wall = 100, c_thread = ''Thread-1'', c_ip = ''10.0.0.1'', c_method = ''GET'',
       c_path = ''/a'', c_status = 200, c_dur_ms = 1000.126, c_inflight = 1\<rparr>,
      \<lparr>c_wall = 101, c_thread = ''Thread-2'', c_ip = ''10.0.0.2'', c_method = ''GET'',
       c_path = ''/b'', c_status = 429, c_dur_ms = 0, c_inflight = 1\<rparr>,
      \<lparr>c_wall = 102, c_thread = ''Thread-3'', c_ip = ''10.0.0.1'', c_method = ''GET'',
       c_path = ''/c'', c_status = 404, c_dur_ms = 2.5, c_inflight = 2\<rparr>]"

section \<open>Token bucket\<close>

lemma allow_exact:
  "allow now ip self =
     (let bucket = (case buckets self ip of
                      None \<Rightarrow> \<lparr>tokens = burst self, last_refill = now\<rparr>
                    | Some b \<Rightarrow> b);
          elapsed = now - last_refill bucket;
          bucket = (if elapsed > 0
                    then bucket\<lparr>tokens := min (burst self) (tokens bucket + elapsed * rps self),
                                last_refill := now\<rparr>
                    else bucket)
      in if tokens bucket \<ge> 1
         then (True, self\<lparr>buckets := (buckets self)(ip \<mapsto> bucket\<lparr>tokens := tokens bucket - 1\<rparr>)\<rparr>)
         else (False, self\<lparr>buckets := (buckets self)(ip \<mapsto> bucket)\<rparr>))"
  by (simp add: allow_def allow_fl_def exact_def Let_def)

lemma py_float_small: "\<bar>b\<bar> \<le> 2 ^ 53 \<Longrightarrow> py_float b = Inr (real_of_int b)"
proof -
  assume small: "\<bar>b\<bar> \<le> 2 ^ 53"
  have "(2::int) ^ 53 < 2 ^ 1024 - 2 ^ 970" by simp
  with small have "\<not> 2 ^ 1024 - 2 ^ 970 \<le> \<bar>b\<bar>" by linarith
  with small show ?thesis by (simp add: py_float_def round_to_double_def)
qed

lemma round_to_double_pos:
  assumes "0 < b"
  shows "0 < round_to_double b"
proof (cases "\<bar>b\<bar> \<le> 2 ^ 53")
  case True
  with assms show ?thesis by (simp add: round_to_double_def)
next
  case False
  define a where "a = nat \<bar>b\<bar>"
  define s where "s = bit_length a - 53"
  define q where "q = a div 2 ^ s"
  from False assms have big: "2 ^ 53 < a" by (simp add: a_def nat_less_iff)
  then have apos: "0 < a" by (simp add: order_less_trans [of 0 "2 ^ 53" a])
  from floorlog_bounds [of a 2] apos have lo: "2 ^ (bit_length a - 1) \<le> a"
    by (simp add: bit_length_def)
  have "(2::nat) ^ s \<le> 2 ^ (bit_length a - 1)"
    by (rule power_increasing) (simp_all add: s_def)
  with lo have "2 ^ s \<le> a" by (rule order_trans [rotated])
  then have "1 \<le> q"
    unfolding q_def by (simp add: Suc_le_eq div_greater_zero_iff)
  then have q': "0 < (if 2 ^ (s - 1) < a mod 2 ^ s \<or> (a mod 2 ^ s = 2 ^ (s - 1) \<and> odd q) then q + 1 else q)"
    by simp
  have "round_to_double b = int ((if 2 ^ (s - 1) < a mod 2 ^ s \<or> (a mod 2 ^ s = 2 ^ (s - 1) \<and> odd q) then q + 1 else q) * 2 ^ s)"
    using False assms by (simp add: round_to_double_def Let_def a_def s_def q_def)
  with q' show ?thesis by simp
qed

lemma py_float_pos: "0 < b \<Longrightarrow> py_float b = Inr v \<Longrightarrow> 0 < v"
  using round_to_double_pos [of b] by (auto simp: py_float_def split: if_splits)

text \<open>
  C9, as the source has it: constructing the rate limiter raises, and no limiter is
  produced, exactly when \<open>rps \<le> 0\<close> or \<open>burst \<le> 0\<close> or \<open>burst\<close> is so large that
  \<open>float(burst)\<close> raises \<open>OverflowError\<close>, which is from \<open>2^1024 - 2^970\<close> on. In the
  first two cases the exception is the \<open>ValueError\<close> of the check. For every other pair
  the limiter holds the given rate, the capacity \<open>float(burst)\<close> (the integer itself up
  to \<open>2^53\<close>) and no bucket yet.
\<close>

theorem RateLimiter_init_fails_iff:
  "(\<exists>e. RateLimiter_init r b = Inl e) = (r \<le> 0 \<or> b \<le> 0 \<or> 2 ^ 1024 - 2 ^ 970 \<le> b)
   \<and> (r \<le> 0 \<longrightarrow> RateLimiter_init r b = Inl (ValueError ''rps must be positive''))
   \<and> (0 < r \<and> b \<le> 0 \<longrightarrow> RateLimiter_init r b = Inl (ValueError ''burst must be positive''))
   \<and> (0 < r \<and> 2 ^ 1024 - 2 ^ 970 \<le> b \<longrightarrow> RateLimiter_init r b = Inl OverflowError)
   \<and> (0 < r \<and> 0 < b \<and> b < 2 ^ 1024 - 2 ^ 970 \<longrightarrow>
        RateLimiter_init r b
          = Inr \<lparr>rps = r, burst = real_of_int (round_to_double b), buckets = Map.empty\<rparr>)
   \<and> (0 < r \<and> 0 < b \<and> b \<le> 2 ^ 53 \<longrightarrow>
        RateLimiter_init r b = Inr \<lparr>rps = r, burst = real_of_int b, buckets = Map.empty\<rparr>)"
proof -
  have huge: "2 ^ 1024 - 2 ^ 970 \<le> b \<Longrightarrow> 0 < b"
  proof -
    assume "2 ^ 1024 - 2 ^ 970 \<le> b"
    moreover have "(0::int) < 2 ^ 1024 - 2 ^ 970" by simp
    ultimately show "0 < b" by linarith
  qed
  have over: "0 < r \<and> 2 ^ 1024 - 2 ^ 970 \<le> b \<longrightarrow> RateLimiter_init r b = Inl OverflowError"
    using huge by (auto simp: RateLimiter_init_def py_float_def)
  have ok: "0 < r \<and> 0 < b \<and> b < 2 ^ 1024 - 2 ^ 970 \<longrightarrow>
        RateLimiter_init r b
          = Inr \<lparr>rps = r, burst = real_of_int (round_to_double b), buckets = Map.empty\<rparr>"
    by (auto simp: RateLimiter_init_def py_float_def)
  have small: "0 < r \<and> 0 < b \<and> b \<le> 2 ^ 53 \<longrightarrow>
        RateLimiter_init r b = Inr \<lparr>rps = r, burst = real_of_int b, buckets = Map.empty\<rparr>"
    by (auto simp: RateLimiter_init_def py_float_small)
  have iff: "(\<exists>e. RateLimiter_init r b = Inl e) = (r \<le> 0 \<or> b \<le> 0 \<or> 2 ^ 1024 - 2 ^ 970 \<le> b)"
    by (auto simp: RateLimiter_init_def py_float_def)
  have v1: "r \<le> 0 \<longrightarrow> RateLimiter_init r b = Inl (ValueError ''rps must be positive'')"
    by (simp add: RateLimiter_init_def)
  have v2: "0 < r \<and> b \<le> 0 \<longrightarrow> RateLimiter_init r b = Inl (ValueError ''burst must be positive'')"
    by (simp add: RateLimiter_init_def)
  from iff v1 v2 over ok small show ?thesis by blast
qed

theorem RateLimiter_init_fails_iff_witness:
  "(0::real) < 5 \<and> (0::int) < 10 \<and> (10::int) \<le> 2 ^ 53
   \<and> RateLimiter_init 5 10 = Inr \<lparr>rps = 5, burst = 10, buckets = Map.empty\<rparr>
   \<and> RateLimiter_init 0 10 = Inl (ValueError ''rps must be positive'')
   \<and> RateLimiter_init 5 (- 1) = Inl (ValueError ''burst must be positive'')
   \<and> RateLimiter_init 5 (2 ^ 1024) = Inl OverflowError"
proof -
  have a: "(0::real) < 5" and b: "(0::int) < 10" and c: "(10::int) \<le> 2 ^ 53"
    and d: "(2::int) ^ 1024 - 2 ^ 970 \<le> 2 ^ 1024"
    by simp_all
  have z: "(0::real) \<le> 0" and n: "(- 1::int) \<le> 0" by simp_all
  from RateLimiter_init_fails_iff [of 5 10] a b c
  have e: "RateLimiter_init 5 10 = Inr \<lparr>rps = 5, burst = real_of_int 10, buckets = Map.empty\<rparr>"
    by blast
  from RateLimiter_init_fails_iff [of 0 10] z
  have f: "RateLimiter_init 0 10 = Inl (ValueError ''rps must be positive'')"
    by blast
  from RateLimiter_init_fails_iff [of 5 "- 1"] a n
  have g: "RateLimiter_init 5 (- 1) = Inl (ValueError ''burst must be positive'')"
    by blast
  from RateLimiter_init_fails_iff [of 5 "2 ^ 1024"] a d
  have h: "RateLimiter_init 5 (2 ^ 1024) = Inl OverflowError"
    by blast
  from e have e': "RateLimiter_init 5 10 = Inr \<lparr>rps = 5, burst = 10, buckets = Map.empty\<rparr>"
    by simp
  from a b c e' f g h show ?thesis by blast
qed

text \<open>
  A capacity of \<open>10^309\<close> passes both checks, and \<open>float\<close> raises on it: the
  construction fails although rate and capacity are positive.
\<close>

theorem RateLimiter_init_overflow_counterexample:
  "(0::real) < 5 \<and> (0::int) < 10 ^ 309
   \<and> RateLimiter_init 5 (10 ^ 309) = Inl OverflowError"
  by (simp add: RateLimiter_init_def py_float_def)

lemma allow_params: "rps (snd (allow now ip self)) = rps self \<and> burst (snd (allow now ip self)) = burst self"
  by (simp add: allow_exact Let_def)

lemma allow_bounded:
  assumes "0 < rps self" and "0 < burst self" and "bounded self"
  shows "bounded (snd (allow now ip self))"
proof -
  define b0 where "b0 = (case buckets self ip of None \<Rightarrow> \<lparr>tokens = burst self, last_refill = now\<rparr> | Some b \<Rightarrow> b)"
  have b0: "0 \<le> tokens b0 \<and> tokens b0 \<le> burst self"
    using assms(2,3) by (auto simp: b0_def bounded_def split: option.splits)
  define el where "el = now - last_refill b0"
  define b1 where "b1 = (if el > 0 then b0\<lparr>tokens := min (burst self) (tokens b0 + el * rps self), last_refill := now\<rparr> else b0)"
  have "el > 0 \<Longrightarrow> 0 \<le> el * rps self" using assms(1) by simp
  then have b1: "0 \<le> tokens b1 \<and> tokens b1 \<le> burst self"
    using b0 assms(2) by (auto simp: b1_def)
  have eq: "snd (allow now ip self) =
     (if tokens b1 \<ge> 1 then self\<lparr>buckets := (buckets self)(ip \<mapsto> b1\<lparr>tokens := tokens b1 - 1\<rparr>)\<rparr>
      else self\<lparr>buckets := (buckets self)(ip \<mapsto> b1)\<rparr>)"
    by (simp add: allow_exact Let_def b0_def el_def b1_def)
  show ?thesis
    unfolding eq using b1 assms(3) by (auto simp: bounded_def)
qed

lemma allow_all_bounded:
  "0 < rps self \<Longrightarrow> 0 < burst self \<Longrightarrow> bounded self \<Longrightarrow>
   bounded (allow_all self calls) \<and> rps (allow_all self calls) = rps self \<and> burst (allow_all self calls) = burst self"
proof (induction calls arbitrary: self)
  case Nil
  then show ?case by (simp add: allow_all_def)
next
  case (Cons c calls)
  obtain now ip where c: "c = (now, ip)" by (cases c)
  have step: "allow_all self (c # calls) = allow_all (snd (allow now ip self)) calls"
    by (simp add: allow_all_def c)
  show ?case
    unfolding step
    using Cons.IH [of "snd (allow now ip self)"] Cons.prems allow_bounded [of self now ip] allow_params [of now ip self]
    by simp
qed

text \<open>
  C6: in a limiter that was constructed and has then served any run of calls of
  \<open>allow\<close>, with any clock values and any keys, every bucket holds at least zero tokens
  and at most the capacity.
\<close>

theorem tokens_within_capacity:
  assumes "RateLimiter_init r b = Inr self"
    and "buckets (allow_all self calls) k = Some bk"
  shows "0 \<le> tokens bk \<and> tokens bk \<le> burst (allow_all self calls)"
proof -
  from assms(1) obtain v where r: "0 < r" and b: "0 < b" and v: "py_float b = Inr v"
    and self: "self = \<lparr>rps = r, burst = v, buckets = Map.empty\<rparr>"
    by (auto simp: RateLimiter_init_def split: if_splits sum.splits)
  from py_float_pos [OF b v] r self
  have pos: "0 < rps self" "0 < burst self" and emp: "buckets self = Map.empty"
    by simp_all
  have "bounded self" using emp by (simp add: bounded_def)
  with pos have "bounded (allow_all self calls)" and "burst (allow_all self calls) = burst self"
    using allow_all_bounded [of self calls] by simp_all
  with assms(2) show ?thesis by (auto simp: bounded_def)
qed

text \<open>The limiter of the test: five calls at once are let through (a sixth is not), and
  a call one second later finds the bucket full again.\<close>

theorem tokens_within_capacity_witness:
  "RateLimiter_init 5 5 = Inr test_limiter
   \<and> buckets (allow_all test_limiter test_calls) ''1.2.3.4'' = Some \<lparr>tokens = 4, last_refill = 21 / 20\<rparr>
   \<and> 0 \<le> tokens \<lparr>tokens = 4, last_refill = 21 / 20\<rparr>
   \<and> tokens \<lparr>tokens = 4, last_refill = 21 / 20\<rparr> \<le> burst (allow_all test_limiter test_calls)"
proof -
  have init: "RateLimiter_init 5 5 = Inr test_limiter"
    by (simp add: RateLimiter_init_def py_float_small test_limiter_def)
  have run: "buckets (allow_all test_limiter test_calls) ''1.2.3.4'' = Some \<lparr>tokens = 4, last_refill = 21 / 20\<rparr>"
    by (simp add: test_limiter_def test_calls_def allow_all_def allow_exact Let_def)
  from tokens_within_capacity [OF init run] init run show ?thesis by simp
qed

lemma allow_fl_steps:
  "allow_fl A now ip self =
     (if 1 \<le> refilled_fl A self now ip
      then (True, self\<lparr>buckets := (buckets self)(ip \<mapsto>
              \<lparr>tokens = fl_sub A (refilled_fl A self now ip) 1,
               last_refill = (if 0 < elapsed_fl A self now ip then now
                              else refill_from self now ip)\<rparr>)\<rparr>)
      else (False, self\<lparr>buckets := (buckets self)(ip \<mapsto>
              \<lparr>tokens = refilled_fl A self now ip,
               last_refill = (if 0 < elapsed_fl A self now ip then now
                              else refill_from self now ip)\<rparr>)\<rparr>))"
proof -
  define b0 where "b0 = (case buckets self ip of
      None \<Rightarrow> \<lparr>tokens = burst self, last_refill = now\<rparr> | Some b \<Rightarrow> b)"
  define el where "el = fl_sub A now (last_refill b0)"
  define b1 where "b1 = (if el > 0
      then b0\<lparr>tokens := min (burst self) (fl_add A (tokens b0) (fl_mul A el (rps self))),
              last_refill := now\<rparr>
      else b0)"
  have tb: "tokens_before self ip = tokens b0" and rf: "refill_from self now ip = last_refill b0"
    by (simp_all add: tokens_before_def refill_from_def b0_def split: option.splits)
  have e: "elapsed_fl A self now ip = el"
    by (simp add: elapsed_fl_def rf el_def)
  have r: "refilled_fl A self now ip = tokens b1"
    by (simp add: refilled_fl_def e tb b1_def)
  have l: "(if 0 < elapsed_fl A self now ip then now else refill_from self now ip) = last_refill b1"
    by (simp add: e rf b1_def)
  have code: "allow_fl A now ip self =
     (if tokens b1 \<ge> 1
      then (True, self\<lparr>buckets := (buckets self)(ip \<mapsto> b1\<lparr>tokens := fl_sub A (tokens b1) 1\<rparr>)\<rparr>)
      else (False, self\<lparr>buckets := (buckets self)(ip \<mapsto> b1)\<rparr>))"
    by (simp add: allow_fl_def Let_def b0_def el_def b1_def)
  have upd: "b1\<lparr>tokens := fl_sub A (tokens b1) 1\<rparr>
      = \<lparr>tokens = fl_sub A (tokens b1) 1, last_refill = last_refill b1\<rparr>"
    and same: "b1 = \<lparr>tokens = tokens b1, last_refill = last_refill b1\<rparr>"
    by simp_all
  show ?thesis
    unfolding code r l by (simp only: upd [symmetric] same [symmetric])
qed

lemma allow_fl_fst: "fst (allow_fl A now ip self) = (1 \<le> refilled_fl A self now ip)"
  by (simp add: allow_fl_steps)

lemma allow_fl_bucket:
  "buckets (snd (allow_fl A now ip self)) ip
     = Some \<lparr>tokens = (if 1 \<le> refilled_fl A self now ip
                       then fl_sub A (refilled_fl A self now ip) 1
                       else refilled_fl A self now ip),
             last_refill = (if 0 < elapsed_fl A self now ip then now
                            else refill_from self now ip)\<rparr>"
  by (simp add: allow_fl_steps)

lemma allow_fl_frame: "k \<noteq> ip \<Longrightarrow> buckets (snd (allow_fl A now ip self)) k = buckets self k"
  by (simp add: allow_fl_def Let_def)

lemma allow_fl_params:
  "rps (snd (allow_fl A now ip self)) = rps self \<and> burst (snd (allow_fl A now ip self)) = burst self"
  by (simp add: allow_fl_def Let_def)

text \<open>
  C2, as the source has it, in whatever way the machine rounds: a key seen for the first
  time gets a bucket with the full capacity and the call's clock value. The call
  measures the time elapsed since the bucket's last refill. When that is positive, the
  count becomes \<open>min(burst, tokens + elapsed * rate)\<close> in the machine's arithmetic and
  the last refill becomes the call's clock value; when it is not, the count and the last
  refill stay as they are. The call is let through exactly when the count after this
  step is at least one, and then \<open>1.0\<close> is subtracted from it in the machine's
  arithmetic; otherwise that count stays. No other bucket changes, nor the rate or the
  capacity.
\<close>

theorem allow_refills_then_consumes:
  "fst (allow_fl A now ip self) = (1 \<le> refilled_fl A self now ip)
   \<and> buckets (snd (allow_fl A now ip self)) ip
       = Some \<lparr>tokens = (if 1 \<le> refilled_fl A self now ip
                         then fl_sub A (refilled_fl A self now ip) 1
                         else refilled_fl A self now ip),
               last_refill = (if 0 < elapsed_fl A self now ip then now
                              else refill_from self now ip)\<rparr>
   \<and> (buckets self ip = None \<longrightarrow>
        tokens_before self ip = burst self \<and> refill_from self now ip = now)
   \<and> (\<forall>b. buckets self ip = Some b \<longrightarrow>
        tokens_before self ip = tokens b \<and> refill_from self now ip = last_refill b)
   \<and> elapsed_fl A self now ip = fl_sub A now (refill_from self now ip)
   \<and> (0 < elapsed_fl A self now ip \<longrightarrow>
        refilled_fl A self now ip
          = min (burst self)
              (fl_add A (tokens_before self ip) (fl_mul A (elapsed_fl A self now ip) (rps self))))
   \<and> (elapsed_fl A self now ip \<le> 0 \<longrightarrow> refilled_fl A self now ip = tokens_before self ip)
   \<and> (\<forall>k. k \<noteq> ip \<longrightarrow> buckets (snd (allow_fl A now ip self)) k = buckets self k)
   \<and> rps (snd (allow_fl A now ip self)) = rps self
   \<and> burst (snd (allow_fl A now ip self)) = burst self"
proof -
  have first: "buckets self ip = None \<longrightarrow>
        tokens_before self ip = burst self \<and> refill_from self now ip = now"
    by (simp add: refill_from_def tokens_before_def)
  have later: "\<forall>b. buckets self ip = Some b \<longrightarrow>
        tokens_before self ip = tokens b \<and> refill_from self now ip = last_refill b"
    by (simp add: refill_from_def tokens_before_def)
  have el: "elapsed_fl A self now ip = fl_sub A now (refill_from self now ip)"
    by (simp add: elapsed_fl_def)
  have pos: "0 < elapsed_fl A self now ip \<longrightarrow>
        refilled_fl A self now ip
          = min (burst self)
              (fl_add A (tokens_before self ip) (fl_mul A (elapsed_fl A self now ip) (rps self)))"
    by (simp add: refilled_fl_def)
  have nonpos: "elapsed_fl A self now ip \<le> 0 \<longrightarrow> refilled_fl A self now ip = tokens_before self ip"
    by (simp add: refilled_fl_def)
  have frame: "\<forall>k. k \<noteq> ip \<longrightarrow> buckets (snd (allow_fl A now ip self)) k = buckets self k"
    by (simp add: allow_fl_frame)
  from allow_fl_fst [of A now ip self] allow_fl_bucket [of A now ip self]
    allow_fl_params [of A now ip self] first later el pos nonpos frame
  show ?thesis by blast
qed

text \<open>
  Rate 4, capacity 5, an empty bucket last refilled at clock 0. A call at clock
  \<open>1/8\<close> refills half a token and is rejected; a call at clock 2 refills to the
  capacity and is let through; a call at clock \<open>-1\<close>, behind the last refill, refills
  nothing; a call for a new key at clock 7 is let through with the full capacity. All
  values are doubles and so are the exact results.
\<close>

theorem allow_refills_then_consumes_witness:
  "fst (allow_fl exact (1 / 8) ''1.2.3.4'' drained_limiter) = False
   \<and> buckets (snd (allow_fl exact (1 / 8) ''1.2.3.4'' drained_limiter)) ''1.2.3.4''
        = Some \<lparr>tokens = 1 / 2, last_refill = 1 / 8\<rparr>
   \<and> fst (allow_fl exact 2 ''1.2.3.4'' drained_limiter) = True
   \<and> buckets (snd (allow_fl exact 2 ''1.2.3.4'' drained_limiter)) ''1.2.3.4''
        = Some \<lparr>tokens = 4, last_refill = 2\<rparr>
   \<and> fst (allow_fl exact (- 1) ''1.2.3.4'' drained_limiter) = False
   \<and> buckets (snd (allow_fl exact (- 1) ''1.2.3.4'' drained_limiter)) ''1.2.3.4''
        = Some \<lparr>tokens = 0, last_refill = 0\<rparr>
   \<and> fst (allow_fl exact 7 ''5.6.7.8'' drained_limiter) = True
   \<and> buckets (snd (allow_fl exact 7 ''5.6.7.8'' drained_limiter)) ''5.6.7.8''
        = Some \<lparr>tokens = 4, last_refill = 7\<rparr>
   \<and> buckets (snd (allow_fl exact 7 ''5.6.7.8'' drained_limiter)) ''1.2.3.4''
        = buckets drained_limiter ''1.2.3.4''"
proof -
  have ne: "''1.2.3.4'' \<noteq> ''5.6.7.8''" by simp
  have r1: "refilled_fl exact drained_limiter (1 / 8) ''1.2.3.4'' = 1 / 2"
    and e1: "elapsed_fl exact drained_limiter (1 / 8) ''1.2.3.4'' = 1 / 8"
    and r2: "refilled_fl exact drained_limiter 2 ''1.2.3.4'' = 5"
    and e2: "elapsed_fl exact drained_limiter 2 ''1.2.3.4'' = 2"
    and r3: "refilled_fl exact drained_limiter (- 1) ''1.2.3.4'' = 0"
    and e3: "elapsed_fl exact drained_limiter (- 1) ''1.2.3.4'' = - 1"
    and f3: "refill_from drained_limiter (- 1) ''1.2.3.4'' = 0"
    and r4: "refilled_fl exact drained_limiter 7 ''5.6.7.8'' = 5"
    and e4: "elapsed_fl exact drained_limiter 7 ''5.6.7.8'' = 0"
    and f4: "refill_from drained_limiter 7 ''5.6.7.8'' = 7"
    and sub: "fl_sub exact 5 1 = 4"
    by (simp_all add: refilled_fl_def elapsed_fl_def tokens_before_def refill_from_def
        drained_limiter_def exact_def)
  from allow_refills_then_consumes [of exact "1 / 8" "''1.2.3.4''" drained_limiter]
    allow_refills_then_consumes [of exact 2 "''1.2.3.4''" drained_limiter]
    allow_refills_then_consumes [of exact "- 1" "''1.2.3.4''" drained_limiter]
    allow_refills_then_consumes [of exact 7 "''5.6.7.8''" drained_limiter]
    ne
  show ?thesis
    by (simp add: r1 e1 r2 e2 r3 e3 f3 r4 e4 f4 sub)
qed

text \<open>
  The clock is read before the lock is taken, so a call can come with a clock value that
  is earlier than the bucket's last refill. With rate 5 and capacity 2, a first call at
  clock 2 leaves one token; a call at clock 1 then has \<open>elapsed = -1\<close>: the formula
  \<open>min(burst, tokens + elapsed * rate)\<close> gives \<open>-4\<close> and a rejection, while the source
  skips the refill and lets the call through.
\<close>

theorem allow_clock_behind_counterexample:
  "RateLimiter_init 5 2 = Inr small_limiter
   \<and> fst (allow 1 ''a'' (allow_all small_limiter [(2, ''a'')])) = True
   \<and> tokens_of (snd (allow 1 ''a'' (allow_all small_limiter [(2, ''a'')]))) ''a'' = Some 0
   \<and> spec_refilled (allow_all small_limiter [(2, ''a'')]) 1 ''a'' = - 4
   \<and> \<not> (1 \<le> spec_refilled (allow_all small_limiter [(2, ''a'')]) 1 ''a'')"
  by (simp add: RateLimiter_init_def py_float_small small_limiter_def allow_all_def allow_exact
      Let_def tokens_of_def spec_refilled_def tokens_before_def refill_from_def)

section \<open>Counters\<close>

lemma sum_list_map_update:
  "i < length ts \<Longrightarrow> sum_list (map f (ts[i := y])) + f (ts ! i) = sum_list (map f ts) + (f y :: nat)"
proof (induction ts arbitrary: i)
  case Nil
  then show ?case by simp
next
  case (Cons t ts)
  show ?case
  proof (cases i)
    case 0
    then show ?thesis by simp
  next
    case (Suc j)
    with Cons.prems have "j < length ts" by simp
    from Cons.IH [OF this] Suc show ?thesis by simp
  qed
qed

subsection \<open>The synchronized counter\<close>

lemma locked_invI:
  assumes "get_count c key + int (sum_list (map pending ts)) = int N"
    and "\<And>i. i < length ts \<Longrightarrow> snd (ts ! i) \<noteq> L_Idle \<Longrightarrow>
           held \<and> 1 \<le> fst (ts ! i) \<and> (\<forall>j. j < length ts \<longrightarrow> j \<noteq> i \<longrightarrow> snd (ts ! j) = L_Idle)"
    and "\<And>i n cur. i < length ts \<Longrightarrow> ts ! i = (n, L_Read cur) \<Longrightarrow> cur = get_count c key"
  shows "locked_inv key N (c, held, ts)"
  unfolding locked_inv_def prod.case using assms by blast

lemma locked_invD:
  assumes "locked_inv key N (c, held, ts)"
  shows "get_count c key + int (sum_list (map pending ts)) = int N"
    and "\<And>i. i < length ts \<Longrightarrow> snd (ts ! i) \<noteq> L_Idle \<Longrightarrow>
              held \<and> 1 \<le> fst (ts ! i) \<and> (\<forall>j. j < length ts \<longrightarrow> j \<noteq> i \<longrightarrow> snd (ts ! j) = L_Idle)"
    and "\<And>i n cur. i < length ts \<Longrightarrow> ts ! i = (n, L_Read cur) \<Longrightarrow> cur = get_count c key"
  using assms unfolding locked_inv_def prod.case by blast+

text \<open>After worker \<open>i\<close> moves to \<open>y\<close> while every other worker is idle.\<close>

lemma locked_inv_move:
  assumes i: "i < length ts"
    and others: "\<And>j. j < length ts \<Longrightarrow> j \<noteq> i \<Longrightarrow> snd (ts ! j) = L_Idle"
    and total: "get_count c' key + int (sum_list (map pending (ts[i := y]))) = int N"
    and own: "snd y \<noteq> L_Idle \<Longrightarrow> held' \<and> 1 \<le> fst y"
    and rd: "\<And>n cur. y = (n, L_Read cur) \<Longrightarrow> cur = get_count c' key"
  shows "locked_inv key N (c', held', ts[i := y])"
proof (rule locked_invI [OF total])
  fix k
  assume k: "k < length (ts[i := y])" and busy: "snd (ts[i := y] ! k) \<noteq> L_Idle"
  have ki: "k = i"
  proof (rule ccontr)
    assume "k \<noteq> i"
    with k busy others [of k] show False by simp
  qed
  have "\<forall>j. j < length (ts[i := y]) \<longrightarrow> j \<noteq> k \<longrightarrow> snd (ts[i := y] ! j) = L_Idle"
    using others ki by simp
  moreover have "held' \<and> 1 \<le> fst (ts[i := y] ! k)"
    using own busy ki i by simp
  ultimately show "held' \<and> 1 \<le> fst (ts[i := y] ! k)
      \<and> (\<forall>j. j < length (ts[i := y]) \<longrightarrow> j \<noteq> k \<longrightarrow> snd (ts[i := y] ! j) = L_Idle)"
    by simp
next
  fix k n cur
  assume k: "k < length (ts[i := y])" and r: "ts[i := y] ! k = (n, L_Read cur)"
  have ki: "k = i"
  proof (rule ccontr)
    assume "k \<noteq> i"
    with k r others [of k] show False by simp
  qed
  with r i have "y = (n, L_Read cur)" by simp
  then show "cur = get_count c' key" by (rule rd)
qed

lemma locked_step_inv:
  assumes "locked_inv key N w"
  shows "locked_inv key N (locked_step key w i)"
proof -
  obtain c held ts where w: "w = (c, held, ts)" by (cases w)
  from assms have inv: "locked_inv key N (c, held, ts)" by (simp only: w)
  note total = locked_invD(1) [OF inv] and excl = locked_invD(2) [OF inv]
    and rd = locked_invD(3) [OF inv]
  show ?thesis
  proof (cases "i < length ts")
    case False
    then show ?thesis using assms by (simp add: locked_step_def w)
  next
    case True
    obtain n pc where t: "ts ! i = (n, pc)" by (cases "ts ! i")
    have upd: "\<And>y. sum_list (map pending (ts[i := y])) + pending (n, pc) = sum_list (map pending ts) + pending y"
      using sum_list_map_update [OF True, of pending] t by simp
    show ?thesis
    proof (cases pc)
      case L_Idle
      show ?thesis
      proof (cases "n = 0 \<or> held")
        case True
        have "locked_step key w i = w"
          using True \<open>i < length ts\<close> t L_Idle by (simp add: locked_step_def w)
        then show ?thesis using assms by simp
      next
        case False
        then have n: "0 < n" and free: "\<not> held" by simp_all
        have idle: "\<And>j. j < length ts \<Longrightarrow> snd (ts ! j) = L_Idle"
          using excl free by blast
        have s: "locked_step key w i = (c, True, ts[i := (n, L_Holding)])"
          using \<open>i < length ts\<close> t L_Idle False by (simp add: locked_step_def w)
        have sum: "sum_list (map pending (ts[i := (n, L_Holding)])) = sum_list (map pending ts)"
          using upd [of "(n, L_Holding)"] L_Idle by simp
        show ?thesis
          unfolding s
          by (rule locked_inv_move [OF \<open>i < length ts\<close>]) (use idle total n in \<open>simp_all add: sum\<close>)
      qed
    next
      case L_Holding
      from excl [OF True] t L_Holding
      have held: held and n: "1 \<le> n" and others: "\<And>j. j < length ts \<Longrightarrow> j \<noteq> i \<Longrightarrow> snd (ts ! j) = L_Idle"
        by simp_all
      have s: "locked_step key w i = (c, held, ts[i := (n, L_Read (get_count c key))])"
        using True t L_Holding by (simp add: locked_step_def w)
      have sum: "sum_list (map pending (ts[i := (n, L_Read (get_count c key))])) = sum_list (map pending ts)"
        using upd [of "(n, L_Read (get_count c key))"] L_Holding by simp
      show ?thesis
        unfolding s
        by (rule locked_inv_move [OF True others]) (use total held n in \<open>simp_all add: sum\<close>)
    next
      case (L_Read cur)
      from excl [OF True] t L_Read
      have held: held and n: "1 \<le> n" and others: "\<And>j. j < length ts \<Longrightarrow> j \<noteq> i \<Longrightarrow> snd (ts ! j) = L_Idle"
        by simp_all
      have cur: "cur = get_count c key" by (rule rd [OF True]) (simp add: t L_Read)
      have s: "locked_step key w i = (c(key \<mapsto> cur + 1), held, ts[i := (n, L_Written)])"
        using True t L_Read by (simp add: locked_step_def w)
      have "sum_list (map pending (ts[i := (n, L_Written)])) + n = sum_list (map pending ts) + (n - 1)"
        using upd [of "(n, L_Written)"] L_Read by simp
      with n have sum: "int (sum_list (map pending (ts[i := (n, L_Written)]))) = int (sum_list (map pending ts)) - 1"
        by linarith
      have cnt: "get_count (c(key \<mapsto> cur + 1)) key = get_count c key + 1"
        by (simp add: get_count_def cur)
      show ?thesis
        unfolding s
        by (rule locked_inv_move [OF True others]) (use total held n in \<open>simp_all add: sum cnt\<close>)
    next
      case L_Written
      from excl [OF True] t L_Written
      have n: "1 \<le> n" and others: "\<And>j. j < length ts \<Longrightarrow> j \<noteq> i \<Longrightarrow> snd (ts ! j) = L_Idle"
        by simp_all
      have s: "locked_step key w i = (c, False, ts[i := (n - 1, L_Idle)])"
        using True t L_Written by (simp add: locked_step_def w)
      have sum: "sum_list (map pending (ts[i := (n - Suc 0, L_Idle)])) = sum_list (map pending ts)"
        using upd [of "(n - 1, L_Idle)"] L_Written by simp
      show ?thesis
        unfolding s
        by (rule locked_inv_move [OF True others]) (use total in \<open>simp_all add: sum\<close>)
    qed
  qed
qed

lemma locked_fold_inv:
  "locked_inv key N w \<Longrightarrow> locked_inv key N (foldl (locked_step key) w sched)"
  by (induction sched arbitrary: w) (simp_all add: locked_step_inv)

lemma locked_init_inv:
  "locked_inv key (sum_list ks) (Map.empty, False, map (\<lambda>k. (k, L_Idle)) ks)"
proof -
  have "map pending (map (\<lambda>k. (k, L_Idle)) ks) = ks" by (simp add: comp_def)
  then show ?thesis by (simp add: locked_inv_def get_count_def)
qed

lemma finished_no_pending:
  "list_all (\<lambda>t. t = (0, L_Idle)) ts \<Longrightarrow> sum_list (map pending ts) = 0"
  by (induction ts) auto

lemma locked_count_exact:
  assumes "locked_finished (locked_run key ks sched)"
  shows "get_count (fst (locked_run key ks sched)) key = int (sum_list ks)"
proof -
  have inv: "locked_inv key (sum_list ks) (locked_run key ks sched)"
    unfolding locked_run_def by (rule locked_fold_inv [OF locked_init_inv])
  obtain c held ts where w: "locked_run key ks sched = (c, held, ts)"
    by (cases "locked_run key ks sched")
  from assms have "sum_list (map pending ts) = 0"
    by (simp add: locked_finished_def w finished_no_pending)
  with inv show ?thesis by (simp add: locked_inv_def w)
qed

lemma inc_pow:
  "snapshot ((inc key ^^ n) (LockedCounter c)) key = (if n = 0 then c key else Some (get_count c key + int n))"
proof (induction n)
  case 0
  then show ?case by simp
next
  case (Suc n)
  obtain c' where c': "(inc key ^^ n) (LockedCounter c) = LockedCounter c'"
    by (induction n) auto
  with Suc show ?case by (auto simp: get_count_def split: option.splits)
qed

lemma locked_one_call:
  assumes "i < length ts" and "ts ! i = (Suc n, L_Idle)"
  shows "foldl (locked_step key) (c, False, ts) [i, i, i, i]
     = (c(key \<mapsto> get_count c key + 1), False, ts[i := (n, L_Idle)])"
  using assms by (simp add: locked_step_def)

lemma locked_worker_alone:
  assumes "i < length ts" and "ts ! i = (n, L_Idle)"
  shows "\<exists>c'. foldl (locked_step key) (c, False, ts) (replicate (4 * n) i)
     = (c', False, ts[i := (0, L_Idle)])"
  using assms
proof (induction n arbitrary: c ts)
  case 0
  then have "ts[i := (0, L_Idle)] = ts" by (metis list_update_id)
  then show ?case by simp
next
  case (Suc n)
  have rep: "replicate (4 * Suc n) i = [i, i, i, i] @ replicate (4 * n) i"
    by (simp add: replicate_add [symmetric] del: replicate_Suc) (simp add: numeral_eq_Suc)
  let ?ts = "ts[i := (n, L_Idle)]"
  have one: "foldl (locked_step key) (c, False, ts) [i, i, i, i]
     = (c(key \<mapsto> get_count c key + 1), False, ?ts)"
    by (rule locked_one_call [OF Suc.prems])
  have "i < length ?ts" and "?ts ! i = (n, L_Idle)" using Suc.prems(1) by simp_all
  from Suc.IH [OF this, of "c(key \<mapsto> get_count c key + 1)"]
  obtain c' where "foldl (locked_step key) (c(key \<mapsto> get_count c key + 1), False, ?ts) (replicate (4 * n) i)
     = (c', False, ?ts[i := (0, L_Idle)])" by blast
  then have "foldl (locked_step key) (c, False, ts) (replicate (4 * Suc n) i) = (c', False, ts[i := (0, L_Idle)])"
    unfolding rep foldl_append one by simp
  then show ?case by blast
qed

lemma locked_workers_in_turn:
  "k \<le> length ks \<Longrightarrow>
   \<exists>c. foldl (locked_step key) (Map.empty, False, map (\<lambda>k. (k, L_Idle)) ks)
          (concat (map (\<lambda>i. replicate (4 * (ks ! i)) i) [0..<k]))
       = (c, False, replicate k (0, L_Idle) @ drop k (map (\<lambda>k. (k, L_Idle)) ks))"
proof (induction k)
  case 0
  then show ?case by simp
next
  case (Suc k)
  then have k: "k < length ks" by simp
  let ?init = "map (\<lambda>k. (k, L_Idle)) ks"
  let ?ts = "replicate k (0, L_Idle) @ drop k ?init"
  from Suc obtain c where c: "foldl (locked_step key) (Map.empty, False, ?init)
          (concat (map (\<lambda>i. replicate (4 * (ks ! i)) i) [0..<k])) = (c, False, ?ts)"
    by auto
  have len: "k < length ?ts" using k by simp
  have at: "?ts ! k = (ks ! k, L_Idle)" using k by (simp add: nth_append)
  from locked_worker_alone [OF len at, of key c]
  obtain c' where c': "foldl (locked_step key) (c, False, ?ts) (replicate (4 * (ks ! k)) k)
     = (c', False, ?ts[k := (0, L_Idle)])" by blast
  have "drop k ?init = ?init ! k # drop (Suc k) ?init"
    by (rule Cons_nth_drop_Suc [symmetric]) (simp add: k)
  then have "?ts[k := (0, L_Idle)] = replicate k (0, L_Idle) @ (0, L_Idle) # drop (Suc k) ?init"
    by (simp add: list_update_append)
  also have "\<dots> = replicate (Suc k) (0, L_Idle) @ drop (Suc k) ?init"
    by (simp add: replicate_append_same)
  finally have upd: "?ts[k := (0, L_Idle)] = replicate (Suc k) (0, L_Idle) @ drop (Suc k) ?init" .
  have "foldl (locked_step key) (Map.empty, False, ?init)
          (concat (map (\<lambda>i. replicate (4 * (ks ! i)) i) [0..<Suc k]))
       = (c', False, replicate (Suc k) (0, L_Idle) @ drop (Suc k) ?init)"
    by (simp add: c c' upd del: replicate_Suc)
  then show ?case by blast
qed

lemma locked_can_finish: "locked_finished (locked_run key ks (one_by_one ks))"
proof -
  from locked_workers_in_turn [of "length ks" ks key]
  obtain c where "locked_run key ks (one_by_one ks) = (c, False, replicate (length ks) (0, L_Idle))"
    by (auto simp: locked_run_def one_by_one_def)
  then show ?thesis by (simp add: locked_finished_def list_all_iff)
qed

text \<open>
  C3: after \<open>n > 0\<close> calls of \<open>LockedCounter.inc\<close> on one key of a fresh counter, the
  snapshot maps the key to \<open>n\<close>. The same holds when the calls are made by any number
  of workers at the same time: the workers can always finish, and whatever the order in
  which they take their steps, once every worker has finished the snapshot maps the key
  to the total number of calls.
\<close>

theorem locked_counter_exact:
  "(0 < n \<longrightarrow> snapshot ((inc key ^^ n) (LockedCounter Map.empty)) key = Some (int n))
   \<and> locked_finished (locked_run key ks (one_by_one ks))
   \<and> (locked_finished (locked_run key ks sched) \<and> 0 < sum_list ks \<longrightarrow>
        snapshot (LockedCounter (fst (locked_run key ks sched))) key = Some (int (sum_list ks)))"
proof -
  have a: "0 < n \<longrightarrow> snapshot ((inc key ^^ n) (LockedCounter Map.empty)) key = Some (int n)"
    by (simp add: inc_pow get_count_def)
  have b: "locked_finished (locked_run key ks sched) \<and> 0 < sum_list ks \<longrightarrow>
        snapshot (LockedCounter (fst (locked_run key ks sched))) key = Some (int (sum_list ks))"
  proof
    assume h: "locked_finished (locked_run key ks sched) \<and> 0 < sum_list ks"
    then have "get_count (fst (locked_run key ks sched)) key = int (sum_list ks)"
      by (simp add: locked_count_exact)
    with h show "snapshot (LockedCounter (fst (locked_run key ks sched))) key = Some (int (sum_list ks))"
      by (auto simp: get_count_def split: option.splits)
  qed
  from a b locked_can_finish [of key ks] show ?thesis by simp
qed

text \<open>Two workers, two calls and one call: the second worker asks for the lock while
  the first holds it, and waits.\<close>

theorem locked_counter_exact_witness:
  "snapshot ((inc ''/foo'' ^^ 3) (LockedCounter Map.empty)) ''/foo'' = Some 3
   \<and> locked_finished (locked_run ''/foo'' [2, 1] (one_by_one [2, 1]))
   \<and> locked_finished (locked_run ''/foo'' [2, 1] [0, 1, 0, 1, 0, 0, 1, 0, 1, 0, 1, 1, 0, 0, 0, 0])
   \<and> 0 < sum_list [2, 1 :: nat]
   \<and> snapshot (LockedCounter (fst (locked_run ''/foo'' [2, 1] [0, 1, 0, 1, 0, 0, 1, 0, 1, 0, 1, 1, 0, 0, 0, 0]))) ''/foo''
        = Some 3"
proof -
  have r: "locked_run ''/foo'' [2, 1] [0, 1, 0, 1, 0, 0, 1, 0, 1, 0, 1, 1, 0, 0, 0, 0]
      = ([''/foo'' \<mapsto> 3], False, [(0, L_Idle), (0, L_Idle)])"
    by (simp add: locked_run_def locked_step_def get_count_def nth_Cons')
  have f: "locked_finished (locked_run ''/foo'' [2, 1] [0, 1, 0, 1, 0, 0, 1, 0, 1, 0, 1, 1, 0, 0, 0, 0])"
    unfolding r by (simp add: locked_finished_def)
  have g: "0 < sum_list [2, 1 :: nat]" by simp
  have h: "snapshot ((inc ''/foo'' ^^ 3) (LockedCounter Map.empty)) ''/foo'' = Some 3"
    by (simp add: numeral_3_eq_3 get_count_def)
  have k: "snapshot (LockedCounter (fst (locked_run ''/foo'' [2, 1] [0, 1, 0, 1, 0, 0, 1, 0, 1, 0, 1, 1, 0, 0, 0, 0]))) ''/foo'' = Some 3"
    unfolding r by simp
  from locked_counter_exact [of 3 "''/foo''" "[2, 1]" "[0, 1, 0, 1, 0, 0, 1, 0, 1, 0, 1, 1, 0, 0, 0, 0]"] f g h k
  show ?thesis by blast
qed

subsection \<open>The unsynchronized counter\<close>

lemma todo_sum_update:
  "i < length ts \<Longrightarrow> todo_sum (ts[i := (n, pc)]) + fst (ts ! i) = todo_sum ts + n"
  using sum_list_map_update [of i ts fst "(n, pc)"] by (simp add: todo_sum_def)

lemma naive_step_inv:
  assumes "naive_inv key N w"
  shows "naive_inv key N (naive_step key w i)"
proof -
  obtain c ts where w: "w = (c, ts)" by (cases w)
  show ?thesis
  proof (cases "i < length ts")
    case False
    then show ?thesis using assms by (simp add: naive_step_def w)
  next
    case True
    obtain n pc where t: "ts ! i = (n, pc)" by (cases "ts ! i")
    show ?thesis
    proof (cases pc)
      case N_Idle
      show ?thesis
      proof (cases "n = 0")
        case True
        then show ?thesis using assms \<open>i < length ts\<close> t N_Idle by (simp add: naive_step_def w)
      next
        case False
        have s: "naive_step key w i = (c, ts[i := (n, N_Sleeping (get_count c key))])"
          using \<open>i < length ts\<close> t N_Idle False by (simp add: naive_step_def w)
        have sum: "todo_sum (ts[i := (n, N_Sleeping (get_count c key))]) = todo_sum ts"
          using todo_sum_update [OF \<open>i < length ts\<close>, of n "N_Sleeping (get_count c key)"] t by simp
        show ?thesis
          unfolding s using assms False \<open>i < length ts\<close>
          by (auto simp: naive_inv_def w sum nth_list_update)
      qed
    next
      case (N_Sleeping cur)
      from assms True t N_Sleeping have n: "1 \<le> n" and cur: "cur + int (todo_sum ts) \<le> int N"
        by (auto simp: naive_inv_def w)
      have s: "naive_step key w i = (c(key \<mapsto> cur + 1), ts[i := (n - 1, N_Idle)])"
        using True t N_Sleeping by (simp add: naive_step_def w)
      have "todo_sum (ts[i := (n - 1, N_Idle)]) + n = todo_sum ts + (n - 1)"
        using todo_sum_update [OF True, of "n - 1" N_Idle] t by simp
      with n have sum: "int (todo_sum (ts[i := (n - Suc 0, N_Idle)])) = int (todo_sum ts) - 1"
        by simp
      show ?thesis
        unfolding s using assms cur True
        by (auto simp: naive_inv_def w sum nth_list_update get_count_def split: if_splits)
    qed
  qed
qed

lemma naive_fold_inv:
  "naive_inv key N w \<Longrightarrow> naive_inv key N (foldl (naive_step key) w sched)"
  by (induction sched arbitrary: w) (simp_all add: naive_step_inv)

lemma naive_init_inv:
  "naive_inv key (sum_list ks) (Map.empty, map (\<lambda>k. (k, N_Idle)) ks)"
proof -
  have "map fst (map (\<lambda>k. (k, N_Idle)) ks) = ks" by (simp add: comp_def)
  then show ?thesis by (simp add: naive_inv_def get_count_def todo_sum_def)
qed

lemma naive_count_le:
  "get_count (fst (naive_run key ks sched)) key \<le> int (sum_list ks)"
proof -
  have "naive_inv key (sum_list ks) (naive_run key ks sched)"
    unfolding naive_run_def by (rule naive_fold_inv [OF naive_init_inv])
  then show ?thesis by (simp add: naive_inv_def)
qed

lemma replicate_update_boundary:
  "0 < m \<Longrightarrow> (replicate k a @ replicate m b)[k := a] = replicate (Suc k) a @ replicate (m - 1) b"
proof -
  assume "0 < m"
  then obtain m' where m: "m = Suc m'" by (cases m) auto
  have "(replicate k a @ b # replicate m' b)[k := a] = replicate k a @ a # replicate m' b"
    by (simp add: list_update_append)
  then show ?thesis by (simp add: m replicate_append_same)
qed

lemma replicate_nth_boundary: "0 < m \<Longrightarrow> (replicate k a @ replicate m b) ! k = b"
  by (simp add: nth_append)

lemma naive_reads:
  "k \<le> n \<Longrightarrow>
   foldl (naive_step key) (c, replicate k (Suc 0, N_Sleeping (get_count c key)) @ replicate (n - k) (Suc 0, N_Idle)) [k..<n]
     = (c, replicate n (Suc 0, N_Sleeping (get_count c key)))"
proof (induction "n - k" arbitrary: k)
  case 0
  then show ?case by simp
next
  case (Suc d)
  then have lt: "k < n" and m: "0 < n - k" by simp_all
  have step: "naive_step key (c, replicate k (Suc 0, N_Sleeping (get_count c key)) @ replicate (n - k) (Suc 0, N_Idle)) k
      = (c, replicate (Suc k) (Suc 0, N_Sleeping (get_count c key)) @ replicate (n - Suc k) (Suc 0, N_Idle))"
    using lt m by (simp add: naive_step_def replicate_nth_boundary replicate_update_boundary)
  have "d = n - Suc k" using Suc.hyps(2) by simp
  from Suc.hyps(1) [OF this] lt
  show ?case by (simp add: upt_conv_Cons step del: replicate_Suc)
qed

lemma naive_writes:
  "k \<le> n \<Longrightarrow>
   foldl (naive_step key) (c, replicate k (0, N_Idle) @ replicate (n - k) (Suc 0, N_Sleeping v)) [k..<n]
     = ((if k < n then c(key \<mapsto> v + 1) else c), replicate n (0, N_Idle))"
proof (induction "n - k" arbitrary: k c)
  case 0
  then show ?case by simp
next
  case (Suc d)
  then have lt: "k < n" and m: "0 < n - k" by simp_all
  have step: "naive_step key (c, replicate k (0, N_Idle) @ replicate (n - k) (Suc 0, N_Sleeping v)) k
      = (c(key \<mapsto> v + 1), replicate (Suc k) (0, N_Idle) @ replicate (n - Suc k) (Suc 0, N_Sleeping v))"
    using lt m by (simp add: naive_step_def replicate_nth_boundary replicate_update_boundary)
  have "d = n - Suc k" using Suc.hyps(2) by simp
  from Suc.hyps(1) [OF this, of "c(key \<mapsto> v + 1)"] lt
  show ?case by (simp add: upt_conv_Cons step del: replicate_Suc)
qed

lemma naive_lost_updates:
  "0 < n \<Longrightarrow> naive_run key (replicate n (Suc 0)) (all_read_then_write n)
      = ([key \<mapsto> 1], replicate n (0, N_Idle))"
proof -
  assume n: "0 < n"
  have r: "foldl (naive_step key) (Map.empty, replicate n (Suc 0, N_Idle)) [0..<n]
      = (Map.empty, replicate n (Suc 0, N_Sleeping 0))"
    using naive_reads [of 0 n key Map.empty] by (simp add: get_count_def)
  have w: "foldl (naive_step key) (Map.empty, replicate n (Suc 0, N_Sleeping 0)) [0..<n]
      = ([key \<mapsto> 1], replicate n (0, N_Idle))"
    using naive_writes [of 0 n key Map.empty 0] n by simp
  show ?thesis
    by (simp add: naive_run_def all_read_then_write_def r w)
qed

text \<open>
  C4: when \<open>n \<ge> 2\<close> workers call \<open>NaiveCounter.inc\<close> once each on one key and every
  worker reads before any worker writes, all calls finish and the snapshot holds a count
  below \<open>n\<close> (it is 1). And for any workers and any order of their steps, the count of
  the key is at no point above the total number of calls.
\<close>

theorem naive_counter_loses_updates:
  "(2 \<le> n \<longrightarrow>
      naive_finished (naive_run key (replicate n 1) (all_read_then_write n))
      \<and> get_count (snapshot (NaiveCounter (fst (naive_run key (replicate n 1) (all_read_then_write n))))) key
          < int n)
   \<and> get_count (snapshot (NaiveCounter (fst (naive_run key ks sched)))) key \<le> int (sum_list ks)"
proof -
  have "2 \<le> n \<Longrightarrow> naive_finished (naive_run key (replicate n 1) (all_read_then_write n))"
    by (simp add: naive_lost_updates naive_finished_def list_all_iff)
  moreover have "2 \<le> n \<Longrightarrow> get_count (fst (naive_run key (replicate n 1) (all_read_then_write n))) key < int n"
    by (simp add: naive_lost_updates get_count_def)
  ultimately show ?thesis using naive_count_le [of key ks sched] by simp
qed

theorem naive_counter_loses_updates_witness:
  "(2::nat) \<le> 3
   \<and> naive_finished (naive_run ''/foo'' (replicate 3 1) (all_read_then_write 3))
   \<and> get_count (snapshot (NaiveCounter (fst (naive_run ''/foo'' (replicate 3 1) (all_read_then_write 3))))) ''/foo'' = 1
   \<and> get_count (snapshot (NaiveCounter (fst (naive_run ''/foo'' (replicate 3 1) (all_read_then_write 3))))) ''/foo''
        < int 3
   \<and> get_count (snapshot (NaiveCounter (fst (naive_run ''/foo'' [2, 1] [0, 1, 0, 0, 1, 0])))) ''/foo'' = 2
   \<and> naive_finished (naive_run ''/foo'' [2, 1] [0, 1, 0, 0, 1, 0])"
proof -
  have r: "naive_run ''/foo'' (replicate 3 1) (all_read_then_write 3)
      = ([''/foo'' \<mapsto> 1], [(0, N_Idle), (0, N_Idle), (0, N_Idle)])"
    by (simp add: naive_run_def all_read_then_write_def naive_step_def get_count_def
        numeral_3_eq_3 upt_rec nth_Cons')
  have s: "naive_run ''/foo'' [2, 1] [0, 1, 0, 0, 1, 0]
      = ([''/foo'' \<mapsto> 2], [(0, N_Idle), (0, N_Idle)])"
    by (simp add: naive_run_def naive_step_def get_count_def nth_Cons')
  have a: "(2::nat) \<le> 3" by simp
  have b: "get_count (snapshot (NaiveCounter (fst (naive_run ''/foo'' (replicate 3 1) (all_read_then_write 3))))) ''/foo'' = 1"
    unfolding r by (simp add: get_count_def)
  have c: "get_count (snapshot (NaiveCounter (fst (naive_run ''/foo'' [2, 1] [0, 1, 0, 0, 1, 0])))) ''/foo'' = 2"
    unfolding s by (simp add: get_count_def)
  have d: "naive_finished (naive_run ''/foo'' [2, 1] [0, 1, 0, 0, 1, 0])"
    unfolding s by (simp add: naive_finished_def)
  from naive_counter_loses_updates [of 3 "''/foo''" "[2, 1]" "[0, 1, 0, 0, 1, 0]"] a b c d
  show ?thesis by blast
qed

section \<open>Inflight count\<close>

lemma inflight_apply_nonneg: "0 \<le> inflight st \<Longrightarrow> 0 \<le> inflight (inflight_apply st x)"
  by (cases x) (simp_all add: inflight_inc_def inflight_dec_def)

lemma inflight_run_nonneg: "0 \<le> inflight st \<Longrightarrow> 0 \<le> inflight (foldl inflight_apply st ops)"
  by (induction ops arbitrary: st) (simp_all add: inflight_apply_nonneg)

text \<open>
  C7: starting from an inflight count of zero, after every prefix of every sequence of
  increments and decrements the count is at least zero; a decrement at zero changes
  nothing.
\<close>

theorem inflight_never_negative:
  "(inflight st = 0 \<longrightarrow> (\<forall>n. 0 \<le> inflight_peek (foldl inflight_apply st (take n ops))))
   \<and> (inflight st = 0 \<longrightarrow> inflight_dec st = st)"
  by (simp add: inflight_run_nonneg inflight_dec_def inflight_peek_def)

theorem inflight_never_negative_witness:
  "inflight idle_server = 0
   \<and> inflight_peek (foldl inflight_apply idle_server (take 3 [Dec, Inc, Dec, Dec, Inc])) = 0
   \<and> inflight_peek (foldl inflight_apply idle_server [Dec, Inc, Dec, Dec, Inc]) = 1
   \<and> inflight_dec idle_server = idle_server"
  using inflight_never_negative [of idle_server "[Dec, Inc, Dec, Dec, Inc]"]
  by (simp add: idle_server_def inflight_inc_def inflight_dec_def inflight_peek_def)

section \<open>Log buffer and \<open>/api/logs\<close>\<close>

lemma parse_qs_fold:
  "foldl (\<lambda>d (name, v). case d name of Some vs \<Rightarrow> d(name \<mapsto> vs @ [v]) | None \<Rightarrow> d(name \<mapsto> [v])) d pairs k =
     (case d k of
        None \<Rightarrow> (if values_of k pairs = [] then None else Some (values_of k pairs))
      | Some ws \<Rightarrow> Some (ws @ values_of k pairs))"
proof (induction pairs arbitrary: d)
  case Nil
  then show ?case by (simp add: values_of_def split: option.splits)
next
  case (Cons p pairs)
  obtain name v where p: "p = (name, v)" by (cases p)
  show ?case
    by (simp add: Cons.IH p values_of_def split: option.splits)
qed

lemma parse_qs_lookup:
  "parse_qs pairs k = (if values_of k pairs = [] then None else Some (values_of k pairs))"
  by (simp add: parse_qs_def parse_qs_fold)

lemma values_of_map_of:
  "map_of pairs k = (case values_of k pairs of [] \<Rightarrow> None | v # _ \<Rightarrow> Some v)"
  by (induction pairs) (auto simp: values_of_def split: list.splits)

lemma get_first_parse_qs:
  "get_first (parse_qs pairs) name dflt = Inr (case map_of pairs name of None \<Rightarrow> dflt | Some v \<Rightarrow> v)"
  by (simp add: get_first_def parse_qs_lookup values_of_map_of split: list.splits)

lemma logs_args_parse_qs:
  "logs_args l (parse_qs pairs) =
     Inr (case py_int l (case map_of pairs ''since'' of None \<Rightarrow> ''0'' | Some v \<Rightarrow> v) of
            None \<Rightarrow> 0 | Some n \<Rightarrow> n,
          max 1 (min 500 (case py_int l (case map_of pairs ''last'' of None \<Rightarrow> ''100'' | Some v \<Rightarrow> v) of
            None \<Rightarrow> 100 | Some n \<Rightarrow> n)))"
  by (simp add: logs_args_def get_first_parse_qs Let_def)

lemma all_entries_snoc:
  "all_entries (cs @ [c]) = all_entries cs @ [entry_of (int (length cs) + 1) c]"
  by (simp add: all_entries_def enumerate_append_eq)

lemma length_all_entries: "length (all_entries cs) = length cs"
  by (simp add: all_entries_def)

lemma deque_append_drop:
  assumes "length xs = n"
  shows "deque_append m (drop (n - m) xs) x = drop (Suc n - m) (xs @ [x])"
proof (cases "n < m")
  case True
  then show ?thesis using assms by (simp add: deque_append_def Let_def)
next
  case False
  show ?thesis
  proof (cases m)
    case 0
    then show ?thesis using assms by (simp add: deque_append_def Let_def)
  next
    case (Suc m')
    with False assms have lt: "n - m < length xs" by simp
    have "tl (drop (n - m) xs) = drop (Suc (n - m)) xs" by (simp add: drop_Suc tl_drop)
    moreover have "Suc (n - m) = Suc n - m" using False by simp
    moreover have "drop (n - m) xs \<noteq> []" using lt by simp
    ultimately show ?thesis using False assms Suc by (simp add: deque_append_def Let_def)
  qed
qed

lemma log_run:
  assumes "logs st0 = []" and "log_seq st0 = 0"
  shows "logs (foldl log_call st0 cs) = drop (length cs - 1000) (all_entries cs)
     \<and> log_seq (foldl log_call st0 cs) = int (length cs)"
proof (induction cs rule: rev_induct)
  case Nil
  then show ?case using assms by (simp add: all_entries_def)
next
  case (snoc c cs)
  have e: "\<lparr>e_id = int (length cs) + 1, e_ts = c_wall c, e_ip = c_ip c, e_method = c_method c,
      e_path = c_path c, e_status = c_status c, e_dur_ms = py_round2 (c_dur_ms c),
      e_inflight = c_inflight c, e_thread = c_thread c\<rparr> = entry_of (int (length cs) + 1) c"
    by (simp add: entry_of_def)
  show ?case
    using snoc deque_append_drop [of "all_entries cs" "length cs" 1000 "entry_of (int (length cs) + 1) c"]
    by (simp add: log_call_def log'_def Let_def e all_entries_snoc length_all_entries)
qed

lemma all_entries_ids: "map e_id (all_entries cs) = map (\<lambda>k. int k + 1) [0..<length cs]"
proof (induction cs rule: rev_induct)
  case Nil
  then show ?case by (simp add: all_entries_def)
next
  case (snoc c cs)
  then show ?case by (simp add: all_entries_snoc entry_of_def)
qed

lemma all_entries_sorted: "sorted_wrt (\<lambda>a b. e_id a < e_id b) (all_entries cs)"
proof -
  have "sorted_wrt (\<lambda>a b. int a + 1 < int b + 1) [0..<length cs]"
    by (rule sorted_wrt_mono_rel [OF _ sorted_wrt_upt]) simp
  then have "sorted_wrt (<) (map (\<lambda>k. int k + 1) [0..<length cs])"
    by (simp only: sorted_wrt_map)
  then have "sorted_wrt (<) (map e_id (all_entries cs))" by (simp only: all_entries_ids)
  then show ?thesis by (simp only: sorted_wrt_map)
qed

lemma log_query_sorted:
  "sorted_wrt (\<lambda>a b. e_id a < e_id b) items \<Longrightarrow> sorted_wrt (\<lambda>a b. e_id a < e_id b) (log_query since n items)"
  by (simp add: log_query_def py_slice_from_def Let_def sorted_wrt_filter sorted_wrt_drop)

lemma log_query_recent:
  "since \<le> 0 \<Longrightarrow> 1 \<le> n \<Longrightarrow> log_query since n items = drop (length items - nat n) items"
proof -
  assume a: "since \<le> 0" "1 \<le> n"
  have "nat (max (int (length items) - n) 0) = length items - nat n" using a by simp
  with a show ?thesis by (simp add: log_query_def py_slice_from_def Let_def)
qed

lemma logs_args_requested:
  assumes "py_int l ''0'' = Some 0" and "py_int l ''100'' = Some 100"
  shows "logs_args l (parse_qs (query_pairs l path))
     = Inr (case requested l path ''since'' of None \<Rightarrow> 0 | Some n \<Rightarrow> n,
            max 1 (min 500 (case requested l path ''last'' of None \<Rightarrow> 100 | Some n \<Rightarrow> n)))"
  using assms by (simp add: logs_args_parse_qs requested_def split: option.splits)

lemma api_logs_requested:
  assumes "py_int l ''0'' = Some 0" and "py_int l ''100'' = Some 100"
  shows "api_logs l path st
     = Returned (Some 200)
         (JsonLogs (log_query (case requested l path ''since'' of None \<Rightarrow> 0 | Some n \<Rightarrow> n)
            (max 1 (min 500 (case requested l path ''last'' of None \<Rightarrow> 100 | Some n \<Rightarrow> n)))
            (logs st)))"
  by (simp add: api_logs_def logs_args_requested [OF assms])

text \<open>
  C5: on a handler class that has logged any run of entries, with \<open>int('0') = 0\<close> and
  \<open>int('100') = 100\<close>. The buffer holds the last 1000 entries logged (all of them when
  fewer were logged), the oldest dropped first, in ascending order of id. A request to
  \<open>/api/logs\<close> that gives a positive integer \<open>since\<close> is answered with the retained
  entries whose id is above that integer. Any other request is answered with the most
  recent entries: as many as the integer it gives for \<open>last\<close>, clamped to
  \<open>[1, 500]\<close>, and 100 when it gives none. Every answer is in ascending order of id.
\<close>

theorem log_query_returns:
  assumes "logs st0 = []" and "log_seq st0 = 0"
    and "py_int l ''0'' = Some 0" and "py_int l ''100'' = Some 100"
  shows "logs (foldl log_call st0 cs) = drop (length cs - 1000) (all_entries cs)
     \<and> length (logs (foldl log_call st0 cs)) = min (length cs) 1000
     \<and> sorted_wrt (\<lambda>a b. e_id a < e_id b) (logs (foldl log_call st0 cs))
     \<and> (\<forall>S. requested l path ''since'' = Some S \<and> 0 < S \<longrightarrow>
          api_logs l path (foldl log_call st0 cs)
            = Returned (Some 200)
                (JsonLogs (filter (\<lambda>e. S < e_id e) (logs (foldl log_call st0 cs)))))
     \<and> (\<forall>N. \<not> asks_since l path \<and> requested l path ''last'' = Some N \<longrightarrow>
          api_logs l path (foldl log_call st0 cs)
            = Returned (Some 200)
                (JsonLogs (drop (length (logs (foldl log_call st0 cs)) - nat (max 1 (min 500 N)))
                             (logs (foldl log_call st0 cs)))))
     \<and> (\<not> asks_since l path \<and> requested l path ''last'' = None \<longrightarrow>
          api_logs l path (foldl log_call st0 cs)
            = Returned (Some 200)
                (JsonLogs (drop (length (logs (foldl log_call st0 cs)) - 100)
                             (logs (foldl log_call st0 cs)))))
     \<and> (\<forall>items. api_logs l path (foldl log_call st0 cs) = Returned (Some 200) (JsonLogs items) \<longrightarrow>
          sorted_wrt (\<lambda>a b. e_id a < e_id b) items)"
proof -
  let ?st = "foldl log_call st0 cs"
  let ?since = "case requested l path ''since'' of None \<Rightarrow> 0 | Some n \<Rightarrow> n"
  let ?limit = "max 1 (min 500 (case requested l path ''last'' of None \<Rightarrow> 100 | Some n \<Rightarrow> n))"
  have items: "logs ?st = drop (length cs - 1000) (all_entries cs)"
    using log_run [OF assms(1,2)] by simp
  have len: "length (logs ?st) = min (length cs) 1000"
    unfolding items by (simp add: length_all_entries)
  have srt: "sorted_wrt (\<lambda>a b. e_id a < e_id b) (logs ?st)"
    unfolding items by (simp add: sorted_wrt_drop all_entries_sorted)
  have api: "api_logs l path ?st = Returned (Some 200) (JsonLogs (log_query ?since ?limit (logs ?st)))"
    by (rule api_logs_requested [OF assms(3,4)])
  have after: "\<forall>S. requested l path ''since'' = Some S \<and> 0 < S \<longrightarrow>
      api_logs l path ?st = Returned (Some 200) (JsonLogs (filter (\<lambda>e. S < e_id e) (logs ?st)))"
    unfolding api by (simp add: log_query_def)
  have recent: "\<not> asks_since l path \<Longrightarrow>
      log_query ?since ?limit (logs ?st) = drop (length (logs ?st) - nat ?limit) (logs ?st)"
    by (rule log_query_recent) (simp_all add: asks_since_def split: option.splits)
  have given: "\<forall>N. \<not> asks_since l path \<and> requested l path ''last'' = Some N \<longrightarrow>
      api_logs l path ?st
        = Returned (Some 200)
            (JsonLogs (drop (length (logs ?st) - nat (max 1 (min 500 N))) (logs ?st)))"
    unfolding api using recent by auto
  have dflt: "\<not> asks_since l path \<and> requested l path ''last'' = None \<longrightarrow>
      api_logs l path ?st
        = Returned (Some 200) (JsonLogs (drop (length (logs ?st) - 100) (logs ?st)))"
    unfolding api using recent by auto
  have order: "\<forall>items. api_logs l path ?st = Returned (Some 200) (JsonLogs items) \<longrightarrow>
      sorted_wrt (\<lambda>a b. e_id a < e_id b) items"
    unfolding api using log_query_sorted [OF srt] by simp
  from items len srt after given dflt order show ?thesis by blast
qed

lemma decimal_int_1: "decimal_int ''1'' = Some 1"
  by (simp add: decimal_int_def)

lemma decimal_int_100: "decimal_int ''100'' = Some 100"
  by (simp add: decimal_int_def)

lemma decimal_int_0: "decimal_int ''0'' = Some 0"
  by (simp add: decimal_int_def)

text \<open>
  Three entries are in the log. \<open>since=1\<close> is answered with the entries 2 and 3;
  \<open>last=2\<close> with the two most recent ones, which are the same; \<open>since=0&last=9999\<close>
  with the 500 most recent ones, which are all three; and a request whose \<open>since\<close> and
  \<open>last\<close> are not integers with the 100 most recent ones, all three again.
\<close>

theorem log_query_returns_witness:
  "logs idle_server = [] \<and> log_seq idle_server = 0
   \<and> py_int paging_lib ''0'' = Some 0 \<and> py_int paging_lib ''100'' = Some 100
   \<and> map e_id (logs (foldl log_call idle_server three_calls)) = [1, 2, 3]
   \<and> requested paging_lib ''/api/logs?since=1'' ''since'' = Some 1
   \<and> api_logs paging_lib ''/api/logs?since=1'' (foldl log_call idle_server three_calls)
        = Returned (Some 200)
            (JsonLogs (filter (\<lambda>e. 1 < e_id e) (logs (foldl log_call idle_server three_calls))))
   \<and> map e_id (filter (\<lambda>e. 1 < e_id e) (logs (foldl log_call idle_server three_calls))) = [2, 3]
   \<and> \<not> asks_since paging_lib ''/api/logs?last=2''
   \<and> requested paging_lib ''/api/logs?last=2'' ''last'' = Some 2
   \<and> api_logs paging_lib ''/api/logs?last=2'' (foldl log_call idle_server three_calls)
        = Returned (Some 200)
            (JsonLogs (drop (length (logs (foldl log_call idle_server three_calls))
                               - nat (max 1 (min 500 2)))
                         (logs (foldl log_call idle_server three_calls))))
   \<and> map e_id (drop (length (logs (foldl log_call idle_server three_calls))
                       - nat (max 1 (min 500 2)))
                 (logs (foldl log_call idle_server three_calls))) = [2, 3]
   \<and> \<not> asks_since paging_lib ''/api/logs?since=0&last=9999''
   \<and> requested paging_lib ''/api/logs?since=0&last=9999'' ''last'' = Some 9999
   \<and> api_logs paging_lib ''/api/logs?since=0&last=9999'' (foldl log_call idle_server three_calls)
        = Returned (Some 200)
            (JsonLogs (drop (length (logs (foldl log_call idle_server three_calls))
                               - nat (max 1 (min 500 9999)))
                         (logs (foldl log_call idle_server three_calls))))
   \<and> nat (max 1 (min 500 9999)) = 500
   \<and> \<not> asks_since paging_lib ''/api/logs?since=abc&last=x''
   \<and> requested paging_lib ''/api/logs?since=abc&last=x'' ''last'' = None
   \<and> api_logs paging_lib ''/api/logs?since=abc&last=x'' (foldl log_call idle_server three_calls)
        = Returned (Some 200)
            (JsonLogs (drop (length (logs (foldl log_call idle_server three_calls)) - 100)
                         (logs (foldl log_call idle_server three_calls))))"
proof -
  have a: "logs idle_server = []" and b: "log_seq idle_server = 0"
    by (simp_all add: idle_server_def)
  have c: "py_int paging_lib ''0'' = Some 0" and d: "py_int paging_lib ''100'' = Some 100"
    by (simp_all add: paging_lib_def test_lib_def decimal_int_0 decimal_int_100)
  have ids: "map e_id (logs (foldl log_call idle_server three_calls)) = [1, 2, 3]"
    by (simp add: idle_server_def three_calls_def log_call_def log'_def deque_append_def Let_def)
  have r1: "requested paging_lib ''/api/logs?since=1'' ''since'' = Some 1"
    by (simp add: requested_def paging_lib_def test_lib_def decimal_int_1)
  have p1: "(0::int) < 1" by simp
  have f1: "map e_id (filter (\<lambda>e. 1 < e_id e) (logs (foldl log_call idle_server three_calls))) = [2, 3]"
    by (simp add: idle_server_def three_calls_def log_call_def log'_def deque_append_def Let_def)
  have n2: "\<not> asks_since paging_lib ''/api/logs?last=2''"
    by (simp add: asks_since_def requested_def paging_lib_def test_lib_def)
  have r2: "requested paging_lib ''/api/logs?last=2'' ''last'' = Some 2"
    by (simp add: requested_def paging_lib_def test_lib_def decimal_int_def)
  have f2: "map e_id (drop (length (logs (foldl log_call idle_server three_calls))
                       - nat (max 1 (min 500 2)))
                 (logs (foldl log_call idle_server three_calls))) = [2, 3]"
    by (simp add: idle_server_def three_calls_def log_call_def log'_def deque_append_def Let_def)
  have n3: "\<not> asks_since paging_lib ''/api/logs?since=0&last=9999''"
    by (simp add: asks_since_def requested_def paging_lib_def test_lib_def decimal_int_0)
  have r3: "requested paging_lib ''/api/logs?since=0&last=9999'' ''last'' = Some 9999"
    by (simp add: requested_def paging_lib_def test_lib_def decimal_int_def)
  have c3: "nat (max 1 (min 500 9999)) = 500" by simp
  have n4: "\<not> asks_since paging_lib ''/api/logs?since=abc&last=x''"
    by (simp add: asks_since_def requested_def paging_lib_def test_lib_def decimal_int_def)
  have r4: "requested paging_lib ''/api/logs?since=abc&last=x'' ''last'' = None"
    by (simp add: requested_def paging_lib_def test_lib_def decimal_int_def)
  from log_query_returns [OF a b c d, where path = "''/api/logs?since=1''" and cs = three_calls]
    log_query_returns [OF a b c d, where path = "''/api/logs?last=2''" and cs = three_calls]
    log_query_returns [OF a b c d, where path = "''/api/logs?since=0&last=9999''" and cs = three_calls]
    log_query_returns [OF a b c d, where path = "''/api/logs?since=abc&last=x''" and cs = three_calls]
    a b c d ids r1 p1 f1 n2 r2 f2 n3 r3 c3 n4 r4
  show ?thesis by blast
qed







section \<open>Requests that are not administrative\<close>

lemma py_round2_0: "py_round2 0 = 0"
  by (simp add: py_round2_def)

lemma do_GET_rejects:
  assumes "\<not> administrative req"
    and "limiter st = Some rl"
    and "\<not> fst (allow (t_allow ev) (client_key st req) rl)"
  shows "do_GET l ev req st
     = reject ev (client_key st req) req
         (st\<lparr>limiter := Some (snd (allow (t_allow ev) (client_key st req) rl))\<rparr>)"
proof -
  obtain ok rl' where a: "allow (t_allow ev) (client_key st req) rl = (ok, rl')"
    by (cases "allow (t_allow ev) (client_key st req) rl")
  with assms(3) have ok: "\<not> ok" by simp
  show ?thesis
    using assms(1,2) a ok by (simp add: do_GET_def administrative_def Let_def)
qed

text \<open>
  A denied request whose answer can be written: status 429, one log entry with that
  status and a duration of zero, and the counter and the inflight count as before.
\<close>

lemma rejected_request_written:
  assumes "\<not> administrative req"
    and "limiter st = Some rl"
    and "\<not> fst (allow (t_allow ev) (client_key st req) rl)"
    and "reject_write ev = None"
  shows "fst (do_GET l ev req st) = Returned (Some 429) ErrorPage
     \<and> counter (snd (do_GET l ev req st)) = counter st
     \<and> inflight (snd (do_GET l ev req st)) = inflight st
     \<and> log_seq (snd (do_GET l ev req st)) = log_seq st + 1
     \<and> logs (snd (do_GET l ev req st)) =
         deque_append 1000 (logs st)
           \<lparr>e_id = log_seq st + 1, e_ts = ts_reject ev, e_ip = client_key st req,
            e_method = ''GET'', e_path = req_path req, e_status = 429, e_dur_ms = 0,
            e_inflight = inflight st, e_thread = thread_name ev\<rparr>"
  unfolding do_GET_rejects [OF assms(1,2,3)]
  using assms(4) by (simp add: reject_def log'_def Let_def inflight_peek_def py_round2_0)

text \<open>
  A denied request whose answer cannot be written: the exception of the socket leaves
  \<open>do_GET\<close> after the status 429 was passed to \<open>send_response\<close>, and nothing is
  logged. The counter and the inflight count are as before.
\<close>

lemma rejected_request_unwritten:
  assumes "\<not> administrative req"
    and "limiter st = Some rl"
    and "\<not> fst (allow (t_allow ev) (client_key st req) rl)"
    and "reject_write ev = Some e"
  shows "fst (do_GET l ev req st) = Raised e (Some 429)
     \<and> counter (snd (do_GET l ev req st)) = counter st
     \<and> inflight (snd (do_GET l ev req st)) = inflight st
     \<and> log_seq (snd (do_GET l ev req st)) = log_seq st
     \<and> logs (snd (do_GET l ev req st)) = logs st"
  unfolding do_GET_rejects [OF assms(1,2,3)]
  using assms(4) by (simp add: reject_def)

text \<open>
  C8: a server whose limiter has no token left for \<open>10.0.0.1\<close> gets \<open>GET /index.html\<close>
  from that address. The request is not administrative and the limiter denies it. When
  the client has closed the connection, the write of \<open>send_error(429)\<close> raises, the
  exception leaves \<open>do_GET\<close>, and the log is as it was: no entry for the request. The
  counter is as it was. When the answer can be written, the same request is answered
  with 429 and gets its log entry, with the next id, status 429 and duration zero.
\<close>

theorem rejected_request_client_gone:
  "\<not> administrative demo_request
   \<and> \<not> fst (allow (t_allow gone_env) (client_key busy_server demo_request)
              \<lparr>rps = 5, burst = 10, buckets = [''10.0.0.1'' \<mapsto> \<lparr>tokens = 0, last_refill = 10\<rparr>]\<rparr>)
   \<and> fst (do_GET test_lib gone_env demo_request busy_server) = Raised ConnectionError (Some 429)
   \<and> logs (snd (do_GET test_lib gone_env demo_request busy_server)) = logs busy_server
   \<and> log_seq (snd (do_GET test_lib gone_env demo_request busy_server)) = log_seq busy_server
   \<and> counter (snd (do_GET test_lib gone_env demo_request busy_server)) = counter busy_server
   \<and> fst (do_GET test_lib demo_env demo_request busy_server) = Returned (Some 429) ErrorPage
   \<and> map e_id (logs (snd (do_GET test_lib demo_env demo_request busy_server))) = [42]
   \<and> map e_status (logs (snd (do_GET test_lib demo_env demo_request busy_server))) = [429]
   \<and> map e_dur_ms (logs (snd (do_GET test_lib demo_env demo_request busy_server))) = [0]
   \<and> counter (snd (do_GET test_lib demo_env demo_request busy_server)) = counter busy_server"
proof -
  have a: "\<not> administrative demo_request"
    by (simp add: administrative_def demo_request_def startswith_def)
  have b: "limiter busy_server = Some \<lparr>rps = 5, burst = 10,
                     buckets = [''10.0.0.1'' \<mapsto> \<lparr>tokens = 0, last_refill = 10\<rparr>]\<rparr>"
    by (simp add: busy_server_def)
  have c: "\<not> fst (allow (t_allow gone_env) (client_key busy_server demo_request)
              \<lparr>rps = 5, burst = 10, buckets = [''10.0.0.1'' \<mapsto> \<lparr>tokens = 0, last_refill = 10\<rparr>]\<rparr>)"
    by (simp add: allow_exact Let_def gone_env_def client_key_def demo_request_def)
  have d: "\<not> fst (allow (t_allow demo_env) (client_key busy_server demo_request)
              \<lparr>rps = 5, burst = 10, buckets = [''10.0.0.1'' \<mapsto> \<lparr>tokens = 0, last_refill = 10\<rparr>]\<rparr>)"
    by (simp add: allow_exact Let_def demo_env_def client_key_def demo_request_def)
  have g: "reject_write gone_env = Some ConnectionError" by (simp add: gone_env_def)
  have w: "reject_write demo_env = None" by (simp add: demo_env_def)
  from rejected_request_unwritten [OF a b c g, of test_lib]
    rejected_request_written [OF a b d w, of test_lib] a c
  show ?thesis
    by (simp add: deque_append_def busy_server_def)
qed

text \<open>
  An admitted request whose \<open>try\<close> block raises: the \<open>except\<close> block logs an entry
  (status 499 when no status was sent), and the \<open>finally\<close> block, which runs as well,
  logs another one (status 200 when no status was sent) before it decrements the
  inflight count.
\<close>

lemma process_raised:
  assumes "raised (fst (try_block l ev req (inflight_inc st)))" and "0 \<le> inflight st"
  shows "inflight (snd (process l ev ip req st)) = inflight st
    \<and> log_seq (snd (process l ev ip req st)) = log_seq st + 2
    \<and> logs (snd (process l ev ip req st)) =
        deque_append 1000
          (deque_append 1000 (logs st)
            \<lparr>e_id = log_seq st + 1, e_ts = ts_except ev, e_ip = ip, e_method = ''GET'',
             e_path = req_path req,
             e_status = (case last_status (fst (process l ev ip req st)) of
                           Some s \<Rightarrow> s | None \<Rightarrow> 499),
             e_dur_ms = py_round2 ((t_except ev - t_start ev) * 1000),
             e_inflight = inflight st + 1, e_thread = thread_name ev\<rparr>)
          \<lparr>e_id = log_seq st + 2, e_ts = ts_finally ev, e_ip = ip, e_method = ''GET'',
           e_path = req_path req,
           e_status = (case last_status (fst (process l ev ip req st)) of
                         Some s \<Rightarrow> s | None \<Rightarrow> 200),
           e_dur_ms = py_round2 ((t_finally ev - t_start ev) * 1000),
           e_inflight = inflight st + 1, e_thread = thread_name ev\<rparr>"
proof -
  obtain r st1 where t: "try_block l ev req (inflight_inc st) = (r, st1)"
    by (cases "try_block l ev req (inflight_inc st)")
  have keep: "inflight st1 = inflight st + 1 \<and> logs st1 = logs st \<and> log_seq st1 = log_seq st"
    using t by (auto simp: try_block_def inflight_inc_def Let_def serve_custom_index_def
        split: if_splits option.splits served.splits)
  from assms(1) t have r: "raised r" by simp
  show ?thesis
    using t r keep assms(2)
    by (simp add: process_def Let_def except_block_def finally_block_def log'_def
        inflight_peek_def inflight_dec_def add.commute)
qed

text \<open>
  C1: a server with a handler delay of \<open>-1\<close> and a fresh limiter gets
  \<open>GET /index.html\<close>. The request is admitted, \<open>time.sleep\<close> raises before any status
  is sent, and the exception leaves \<open>do_GET\<close>; the inflight count is back at zero, and
  the log holds two entries for the request, with status 499 and with status 200.
  On a server without delay, a client that closes the connection after the status 200
  was sent makes the base class's \<open>do_GET\<close> raise; the inflight count is back at zero,
  and the log holds two entries for the request, both with status 200.
\<close>

theorem raising_request_is_logged_twice:
  "fst (do_GET test_lib demo_env demo_request negative_delay_server)
     = Raised (ValueError ''sleep length must be non-negative'') None
   \<and> inflight (snd (do_GET test_lib demo_env demo_request negative_delay_server)) = 0
   \<and> map e_id (logs (snd (do_GET test_lib demo_env demo_request negative_delay_server))) = [1, 2]
   \<and> map e_status (logs (snd (do_GET test_lib demo_env demo_request negative_delay_server))) = [499, 200]
   \<and> fst (do_GET test_lib disconnect_env demo_request fresh_server) = Raised ConnectionError (Some 200)
   \<and> inflight (snd (do_GET test_lib disconnect_env demo_request fresh_server)) = 0
   \<and> map e_id (logs (snd (do_GET test_lib disconnect_env demo_request fresh_server))) = [1, 2]
   \<and> map e_status (logs (snd (do_GET test_lib disconnect_env demo_request fresh_server))) = [200, 200]"
  by (simp add: do_GET_def test_lib_def demo_env_def demo_request_def negative_delay_server_def
        fresh_server_def disconnect_env_def endswith_def
        client_key_def startswith_def allow_exact Let_def process_def try_block_def
        except_block_def finally_block_def inflight_inc_def inflight_dec_def inflight_peek_def
        log'_def deque_append_def)

end
